theory Spec2Isabelle
  imports Complex_Main "HOL-Library.AList"
begin

section \<open>Errors\<close>

text \<open>
  The exceptions the modelled Python code can raise: a missing dictionary key, a list
  index out of range and a float division by zero.
\<close>

datatype error = KeyError | IndexError | ZeroDivisionError

section \<open>TrafficManager (src/controllers/traffic\_manager.py)\<close>

text \<open>
  The two occupancy dictionaries are association lists in insertion order, as Python
  dictionaries are: \<open>AList.update\<close> overwrites the value of a key that is present in place
  and appends a new key at the end, \<open>AList.delete\<close> is \<open>del\<close>, \<open>map_of\<close> is lookup.
  The manager's \<open>nav_graph\<close> and \<open>logger\<close> fields are never read by its methods and are
  left out.
\<close>

record traffic_manager =
  lane_occupancy :: "((int \<times> int) \<times> int) list"
  vertex_occupancy :: "(int \<times> int) list"

definition TrafficManager_init :: traffic_manager where
  "TrafficManager_init = \<lparr>lane_occupancy = [], vertex_occupancy = []\<rparr>"

definition normalize_lane :: "int \<Rightarrow> int \<Rightarrow> int \<times> int" where
  "normalize_lane from_vertex to_vertex =
     (min from_vertex to_vertex, max from_vertex to_vertex)"

definition request_lane ::
  "traffic_manager \<Rightarrow> int \<Rightarrow> int \<Rightarrow> int \<Rightarrow> bool \<times> traffic_manager" where
  "request_lane tm robot_id from_vertex to_vertex =
     (let lane = normalize_lane from_vertex to_vertex in
      if lane \<in> fst ` set (lane_occupancy tm)
           \<and> map_of (lane_occupancy tm) lane \<noteq> Some robot_id
      then (False, tm)
      else (True, tm\<lparr>lane_occupancy := AList.update lane robot_id (lane_occupancy tm)\<rparr>))"

definition request_vertex ::
  "traffic_manager \<Rightarrow> int \<Rightarrow> int \<Rightarrow> bool \<times> traffic_manager" where
  "request_vertex tm robot_id vertex_id =
     (if vertex_id \<in> fst ` set (vertex_occupancy tm)
           \<and> map_of (vertex_occupancy tm) vertex_id \<noteq> Some robot_id
      then (False, tm)
      else (True, tm\<lparr>vertex_occupancy :=
                        AList.update vertex_id robot_id (vertex_occupancy tm)\<rparr>))"

definition release_lane ::
  "traffic_manager \<Rightarrow> int \<Rightarrow> int \<Rightarrow> int \<Rightarrow> traffic_manager" where
  "release_lane tm robot_id from_vertex to_vertex =
     (let lane = normalize_lane from_vertex to_vertex in
      if lane \<in> fst ` set (lane_occupancy tm)
           \<and> map_of (lane_occupancy tm) lane = Some robot_id
      then tm\<lparr>lane_occupancy := AList.delete lane (lane_occupancy tm)\<rparr>
      else tm)"

definition release_vertex :: "traffic_manager \<Rightarrow> int \<Rightarrow> int \<Rightarrow> traffic_manager" where
  "release_vertex tm robot_id vertex_id =
     (if vertex_id \<in> fst ` set (vertex_occupancy tm)
           \<and> map_of (vertex_occupancy tm) vertex_id = Some robot_id
      then tm\<lparr>vertex_occupancy := AList.delete vertex_id (vertex_occupancy tm)\<rparr>
      else tm)"

definition get_occupied_lanes :: "traffic_manager \<Rightarrow> (int \<times> int) list" where
  "get_occupied_lanes tm = map fst (lane_occupancy tm)"

definition get_occupied_vertices :: "traffic_manager \<Rightarrow> int list" where
  "get_occupied_vertices tm = map fst (vertex_occupancy tm)"

text \<open>
  An agent holds a vertex (a lane) when the ledger has an entry for the vertex (for the
  canonical key of the lane) whose value is the agent.
\<close>

definition holds_vertex :: "traffic_manager \<Rightarrow> int \<Rightarrow> int \<Rightarrow> bool" where
  "holds_vertex tm robot_id vertex_id \<longleftrightarrow> (vertex_id, robot_id) \<in> set (vertex_occupancy tm)"

definition holds_lane :: "traffic_manager \<Rightarrow> int \<Rightarrow> int \<Rightarrow> int \<Rightarrow> bool" where
  "holds_lane tm robot_id from_vertex to_vertex \<longleftrightarrow>
     (normalize_lane from_vertex to_vertex, robot_id) \<in> set (lane_occupancy tm)"

text \<open>The ledgers reachable from the empty one through the four operations.\<close>

inductive reachable_ledger :: "traffic_manager \<Rightarrow> bool" where
  ledger_init: "reachable_ledger TrafficManager_init"
| ledger_request_vertex:
    "reachable_ledger tm \<Longrightarrow> reachable_ledger (snd (request_vertex tm a v))"
| ledger_request_lane:
    "reachable_ledger tm \<Longrightarrow> reachable_ledger (snd (request_lane tm a u v))"
| ledger_release_vertex:
    "reachable_ledger tm \<Longrightarrow> reachable_ledger (release_vertex tm a v)"
| ledger_release_lane:
    "reachable_ledger tm \<Longrightarrow> reachable_ledger (release_lane tm a u v)"

section \<open>NavGraph (src/models/nav\_graph.py)\<close>

text \<open>
  A vertex entry \<open>[x, y, attributes]\<close> is modelled by its two coordinates, a lane entry
  \<open>[a, b, properties]\<close> by its endpoints and the \<open>speed_limit\<close> property when the lane
  has one. Coordinates, speeds and times are Python floats; they are modelled as reals,
  so rounding, infinities and NaN are outside the model.
\<close>

record vertex =
  vx :: real
  vy :: real

type_synonym lane = "int \<times> int \<times> real option"

type_synonym adjacency = "(int \<times> int list) list"

record nav_graph =
  vertices :: "vertex list"
  lanes :: "lane list"
  adjacency_list :: adjacency
  lane_properties :: "((int \<times> int) \<times> real option) list"

text \<open>\<open>adj_list[k].append(v)\<close>: raises KeyError when \<open>k\<close> is not a key.\<close>

definition adj_append :: "adjacency \<Rightarrow> int \<Rightarrow> int \<Rightarrow> error + adjacency" where
  "adj_append adj k v =
     (case map_of adj k of
        None \<Rightarrow> Inl KeyError
      | Some ns \<Rightarrow> Inr (AList.update k (ns @ [v]) adj))"

fun add_lanes :: "adjacency \<Rightarrow> lane list \<Rightarrow> error + adjacency" where
  "add_lanes adj [] = Inr adj"
| "add_lanes adj ((a, b, props) # rest) =
     (case adj_append adj a b of
        Inl e \<Rightarrow> Inl e
      | Inr adj1 \<Rightarrow>
          (case adj_append adj1 b a of
             Inl e \<Rightarrow> Inl e
           | Inr adj2 \<Rightarrow> add_lanes adj2 rest))"

definition build_adjacency_list :: "vertex list \<Rightarrow> lane list \<Rightarrow> error + adjacency" where
  "build_adjacency_list vs ls = add_lanes (map (\<lambda>i. (int i, [])) [0..<length vs]) ls"

fun extract_lane_properties ::
  "((int \<times> int) \<times> real option) list \<Rightarrow> lane list \<Rightarrow> ((int \<times> int) \<times> real option) list" where
  "extract_lane_properties properties [] = properties"
| "extract_lane_properties properties ((from_idx, to_idx, props) # rest) =
     extract_lane_properties
       (AList.update (to_idx, from_idx) props
          (AList.update (from_idx, to_idx) props properties)) rest"

text \<open>
  The constructor, after the JSON file has been read: it fails with KeyError when a lane
  names a vertex index outside \<open>0..<len(vertices)\<close>.
\<close>

definition NavGraph_init :: "vertex list \<Rightarrow> lane list \<Rightarrow> error + nav_graph" where
  "NavGraph_init vs ls =
     (case build_adjacency_list vs ls of
        Inl e \<Rightarrow> Inl e
      | Inr adj \<Rightarrow>
          Inr \<lparr>vertices = vs, lanes = ls, adjacency_list = adj,
               lane_properties = extract_lane_properties [] ls\<rparr>)"

text \<open>Python list indexing: a negative index counts from the end.\<close>

definition get_vertex_position :: "nav_graph \<Rightarrow> int \<Rightarrow> error + real \<times> real" where
  "get_vertex_position g vertex_id =
     (let n = int (length (vertices g));
          j = (if vertex_id < 0 then n + vertex_id else vertex_id)
      in if 0 \<le> j \<and> j < n
         then Inr (vx (vertices g ! nat j), vy (vertices g ! nat j))
         else Inl IndexError)"

definition get_lane_speed_limit :: "nav_graph \<Rightarrow> int \<Rightarrow> int \<Rightarrow> real" where
  "get_lane_speed_limit g from_vertex to_vertex =
     (case map_of (lane_properties g) (from_vertex, to_vertex) of
        None \<Rightarrow> 0
      | Some props \<Rightarrow> (case props of None \<Rightarrow> 0 | Some limit \<Rightarrow> limit))"

subsection \<open>Breadth-first search\<close>

text \<open>
  A function that contains a loop whose termination depends on its data returns an
  option: \<open>None\<close> stands for a run that never returns, \<open>Some (Inl e)\<close> for an exception
  and \<open>Some (Inr v)\<close> for the value returned.
\<close>

type_synonym 'a outcome = "(error + 'a) option"

text \<open>
  The \<open>visited\<close> dictionary maps a vertex to its parent, and the start vertex to Python's
  \<open>None\<close>. The loop \<open>while neighbor is not None\<close> follows the parents and collects the
  vertices; \<open>visited[neighbor]\<close> raises KeyError on a missing key.
\<close>

partial_function (option) reconstruct ::
  "(int \<rightharpoonup> int option) \<Rightarrow> int option \<Rightarrow> int list \<Rightarrow> int list outcome" where
  "reconstruct visited neighbor path =
     (case neighbor of
        None \<Rightarrow> Some (Inr path)
      | Some v \<Rightarrow>
          (case visited v of
             None \<Rightarrow> Some (Inl KeyError)
           | Some parent \<Rightarrow> reconstruct visited parent (path @ [v])))"

text \<open>
  The \<open>for neighbor in self.adjacency_list[current]\<close> loop: either it returns from
  \<open>find_shortest_path\<close> with the reversed reconstructed path (\<open>Found\<close>), or it ends
  and hands the updated \<open>visited\<close> and \<open>queue\<close> back to the \<open>while\<close> loop.
  The destination is an \<open>int option\<close> because \<open>_check_waiting_robot\<close> passes
  \<open>robot.destination_vertex\<close>, which may be Python's \<open>None\<close>; the comparison
  \<open>neighbor == end\<close> is then false for every vertex.
\<close>

datatype scan = Found "int list outcome" | Next "int \<rightharpoonup> int option" "int list"

fun scan_neighbors ::
  "int \<Rightarrow> int option \<Rightarrow> int set \<Rightarrow> (int \<rightharpoonup> int option) \<Rightarrow> int list \<Rightarrow> int list \<Rightarrow> scan" where
  "scan_neighbors current end_v occupied visited queue [] = Next visited queue"
| "scan_neighbors current end_v occupied visited queue (neighbor # rest) =
     (if neighbor \<in> occupied \<or> neighbor = current
      then scan_neighbors current end_v occupied visited queue rest
      else if visited neighbor = None
      then (if Some neighbor = end_v
            then Found (case reconstruct (visited(neighbor \<mapsto> Some current)) (Some neighbor) [] of
                          None \<Rightarrow> None
                        | Some (Inl e) \<Rightarrow> Some (Inl e)
                        | Some (Inr p) \<Rightarrow> Some (Inr (rev p)))
            else scan_neighbors current end_v occupied
                   (visited(neighbor \<mapsto> Some current)) (queue @ [neighbor]) rest)
      else scan_neighbors current end_v occupied visited queue rest)"

lemma scan_neighbors_Next:
  "scan_neighbors current end_v occupied visited queue nbrs = Next visited' queue' \<Longrightarrow>
     dom visited \<subseteq> dom visited' \<and> dom visited' \<subseteq> dom visited \<union> set nbrs
     \<and> (dom visited' = dom visited \<longrightarrow> queue' = queue)"
proof (induction nbrs arbitrary: visited queue)
  case Nil
  then show ?case by simp
next
  case (Cons n rest)
  show ?case
  proof (cases "\<not> (n \<in> occupied \<or> n = current) \<and> visited n = None")
    case True
    with Cons.prems have "Some n \<noteq> end_v"
      and "scan_neighbors current end_v occupied (visited(n \<mapsto> Some current)) (queue @ [n]) rest
            = Next visited' queue'"
      by (auto split: if_splits)
    from Cons.IH [OF this(2)]
    have a: "dom (visited(n \<mapsto> Some current)) \<subseteq> dom visited'"
      and b: "dom visited' \<subseteq> dom (visited(n \<mapsto> Some current)) \<union> set rest"
      by blast+
    from a have "insert n (dom visited) \<subseteq> dom visited'"
      by simp
    moreover from b have "dom visited' \<subseteq> insert n (dom visited) \<union> set rest"
      by simp
    moreover from True have "n \<notin> dom visited"
      by (simp add: domIff)
    ultimately show ?thesis
      by auto
  next
    case False
    with Cons.prems
    have "scan_neighbors current end_v occupied visited queue rest = Next visited' queue'"
      by (auto split: if_splits)
    from Cons.IH [OF this] show ?thesis
      by auto
  qed
qed

text \<open>
  The \<open>while queue\<close> loop. \<open>queue.pop(0)\<close> takes the head; \<open>self.adjacency_list[current]\<close>
  raises KeyError when \<open>current\<close> is not a key. The loop ends on every input: each round
  either discovers a vertex named in the adjacency lists or shortens the queue.
\<close>

function bfs_loop ::
  "adjacency \<Rightarrow> int option \<Rightarrow> int set \<Rightarrow> (int \<rightharpoonup> int option) \<Rightarrow> int list
     \<Rightarrow> int list option outcome" where
  "bfs_loop adj end_v occupied visited [] = Some (Inr None)"
| "bfs_loop adj end_v occupied visited (current # queue) =
     (case map_of adj current of
        None \<Rightarrow> Some (Inl KeyError)
      | Some nbrs \<Rightarrow>
          (case scan_neighbors current end_v occupied visited queue nbrs of
             Found r \<Rightarrow>
               (case r of
                  None \<Rightarrow> None
                | Some (Inl e) \<Rightarrow> Some (Inl e)
                | Some (Inr p) \<Rightarrow> Some (Inr (Some p)))
           | Next visited' queue' \<Rightarrow> bfs_loop adj end_v occupied visited' queue'))"
  by pat_completeness auto
termination
proof (relation "inv_image (finite_psubset <*lex*> less_than)
         (\<lambda>(adj, end_v, occupied, visited, queue).
            (set (concat (map snd adj)) - dom visited, length queue))", goal_cases)
  case 1
  show ?case
    by (intro wf_inv_image wf_lex_prod wf_finite_psubset wf_less_than)
next
  case (2 adj end_v occupied visited current queue nbrs visited' queue')
  let ?U = "set (concat (map snd adj))"
  from 2(1) have "(current, nbrs) \<in> set adj"
    by (rule map_of_SomeD)
  then have sub: "set nbrs \<subseteq> ?U"
    by auto
  from scan_neighbors_Next [OF 2(2)]
  have mono: "dom visited \<subseteq> dom visited'" and new: "dom visited' \<subseteq> dom visited \<union> set nbrs"
    and same: "dom visited' = dom visited \<longrightarrow> queue' = queue"
    by blast+
  show ?case
  proof (cases "dom visited' = dom visited")
    case True
    with same show ?thesis by simp
  next
    case False
    with mono obtain x where x: "x \<in> dom visited'" "x \<notin> dom visited"
      by blast
    with new sub have "x \<in> ?U" by blast
    with x mono have "?U - dom visited' \<subset> ?U - dom visited"
      by blast
    then show ?thesis by (simp add: finite_psubset_def)
  qed
qed

definition find_shortest_path ::
  "nav_graph \<Rightarrow> int \<Rightarrow> int option \<Rightarrow> int list \<Rightarrow> int list option outcome" where
  "find_shortest_path g start end_v occupied_vertices =
     (if Some start = end_v then Some (Inr (Some [start]))
      else bfs_loop (adjacency_list g) end_v (set occupied_vertices)
             [start \<mapsto> None] [start])"

section \<open>Robot (src/models/robot.py)\<close>

datatype robot_status = IDLE | MOVING | WAITING | CHARGING | TASK_COMPLETE

text \<open>
  The robot's \<open>id\<close> field is \<open>robot_id\<close> here. Its \<open>color\<close>, \<open>logger\<close> and \<open>nav_graph\<close>
  fields are left out: the colour is a function of the id that nothing reads back, and
  every robot refers to the one graph of the fleet manager, which the functions below
  take as an argument.
\<close>

record robot =
  robot_id :: int
  current_vertex :: int
  previous_vertex :: "int option"
  destination_vertex :: "int option"
  path :: "int list"
  status :: robot_status
  speed :: real
  progress :: real

definition Robot_init :: "int \<Rightarrow> int \<Rightarrow> robot" where
  "Robot_init rid start_vertex =
     \<lparr>robot_id = rid, current_vertex = start_vertex, previous_vertex = None,
      destination_vertex = None, path = [], status = IDLE, speed = 1, progress = 0\<rparr>"

definition robot_assign_task :: "robot \<Rightarrow> int \<Rightarrow> int list \<Rightarrow> robot" where
  "robot_assign_task r destination p =
     r\<lparr>destination_vertex := Some destination, path := p, status := MOVING, progress := 0\<rparr>"

definition distance_to_next :: "nav_graph \<Rightarrow> robot \<Rightarrow> error + real" where
  "distance_to_next g r =
     (case path r of
        [] \<Rightarrow> Inr 0
      | next_vertex # _ \<Rightarrow>
          (case get_vertex_position g (current_vertex r) of
             Inl e \<Rightarrow> Inl e
           | Inr start_pos \<Rightarrow>
               (case get_vertex_position g next_vertex of
                  Inl e \<Rightarrow> Inl e
                | Inr end_pos \<Rightarrow>
                    Inr (sqrt ((fst end_pos - fst start_pos)\<^sup>2
                               + (snd end_pos - snd start_pos)\<^sup>2)))))"

text \<open>
  \<open>update_position\<close> returns the updated robot and the boolean the method returns. The
  float division \<open>distance / self._distance_to_next()\<close> raises ZeroDivisionError when
  the divisor is zero.
\<close>

definition update_position :: "nav_graph \<Rightarrow> robot \<Rightarrow> real \<Rightarrow> error + robot \<times> bool" where
  "update_position g r delta_time =
     (if status r \<noteq> MOVING \<or> path r = [] then Inr (r, False)
      else
        let next_vertex = hd (path r);
            speed_limit = get_lane_speed_limit g (current_vertex r) next_vertex;
            effective_speed = (if speed_limit = 0 then speed r else min (speed r) speed_limit);
            distance = delta_time * effective_speed
        in case distance_to_next g r of
             Inl e \<Rightarrow> Inl e
           | Inr d \<Rightarrow>
               let remaining_distance = (1 - progress r) * d in
               if distance \<ge> remaining_distance
               then Inr (r\<lparr>previous_vertex := Some (current_vertex r),
                           current_vertex := next_vertex, progress := 0\<rparr>, True)
               else (case distance_to_next g r of
                       Inl e \<Rightarrow> Inl e
                     | Inr d' \<Rightarrow>
                         if d' = 0 then Inl ZeroDivisionError
                         else Inr (r\<lparr>progress := progress r + distance / d'\<rparr>, True)))"

definition charge :: "robot \<Rightarrow> robot" where
  "charge r = (if status r = IDLE then r\<lparr>status := CHARGING\<rparr> else r)"

definition stop_charging :: "robot \<Rightarrow> robot" where
  "stop_charging r = (if status r = CHARGING then r\<lparr>status := IDLE\<rparr> else r)"

section \<open>FleetManager (src/controllers/fleet\_manager.py)\<close>

text \<open>
  The \<open>robots\<close> dictionary is an association list in insertion order, which is the order
  \<open>list(self.robots.values())\<close> iterates in.
\<close>

record fleet_manager =
  nav_graph :: nav_graph
  robots :: "(int \<times> robot) list"
  next_robot_id :: int
  traffic_manager :: traffic_manager

definition FleetManager_init :: "nav_graph \<Rightarrow> fleet_manager" where
  "FleetManager_init g =
     \<lparr>nav_graph = g, robots = [], next_robot_id = 0, traffic_manager = TrafficManager_init\<rparr>"

definition spawn_robot :: "fleet_manager \<Rightarrow> int \<Rightarrow> robot option \<times> fleet_manager" where
  "spawn_robot fm vertex_id =
     (if vertex_id < 0 \<or> vertex_id \<ge> int (length (vertices (nav_graph fm))) then (None, fm)
      else
        let (granted, tm) = request_vertex (traffic_manager fm) (next_robot_id fm) vertex_id;
            fm1 = fm\<lparr>traffic_manager := tm\<rparr>
        in if \<not> granted then (None, fm1)
           else
             let r = Robot_init (next_robot_id fm1) vertex_id
             in (Some r, fm1\<lparr>robots := AList.update (next_robot_id fm1) r (robots fm1),
                              next_robot_id := next_robot_id fm1 + 1\<rparr>))"

text \<open>
  \<open>assign_task\<close> returns the boolean and the fleet manager after the call. \<open>if not path\<close>
  is true for Python's \<open>None\<close> and for the empty list.
\<close>

definition assign_task ::
  "fleet_manager \<Rightarrow> int \<Rightarrow> int \<Rightarrow> (bool \<times> fleet_manager) outcome" where
  "assign_task fm rid destination =
     (case map_of (robots fm) rid of
        None \<Rightarrow> Some (Inr (False, fm))
      | Some r \<Rightarrow>
          if status r = CHARGING then Some (Inr (False, fm))
          else
            let occupied = get_occupied_vertices (traffic_manager fm) in
            case find_shortest_path (nav_graph fm) (current_vertex r) (Some destination) occupied of
              None \<Rightarrow> None
            | Some (Inl e) \<Rightarrow> Some (Inl e)
            | Some (Inr found) \<Rightarrow>
                (case found of
                   None \<Rightarrow> Some (Inr (False, fm))
                 | Some p \<Rightarrow>
                     if p = [] then Some (Inr (False, fm))
                     else
                       let tm = (if length p > 1
                                 then release_vertex (traffic_manager fm) (robot_id r)
                                        (current_vertex r)
                                 else traffic_manager fm)
                       in Some (Inr (True,
                            fm\<lparr>robots := AList.update rid (robot_assign_task r destination p)
                                             (robots fm),
                               traffic_manager := tm\<rparr>))))"

definition can_move_to :: "traffic_manager \<Rightarrow> robot \<Rightarrow> int \<Rightarrow> bool \<times> traffic_manager" where
  "can_move_to tm r next_vertex =
     (if next_vertex = current_vertex r then (True, tm)
      else
        let (vertex_ok, tm1) = request_vertex tm (robot_id r) next_vertex in
        if \<not> vertex_ok then (False, tm1)
        else
          let (lane_ok, tm2) = request_lane tm1 (robot_id r) (current_vertex r) next_vertex in
          if \<not> lane_ok then (False, tm2) else (True, tm2))"

text \<open>\<open>robot.path.pop(0)\<close> raises IndexError on an empty path.\<close>

definition handle_vertex_reached ::
  "traffic_manager \<Rightarrow> robot \<Rightarrow> int \<Rightarrow> error + robot \<times> traffic_manager" where
  "handle_vertex_reached tm r next_vertex =
     (let tm1 = (case previous_vertex r of
                   None \<Rightarrow> tm
                 | Some prev \<Rightarrow>
                     release_vertex
                       (release_lane tm (robot_id r) prev (current_vertex r))
                       (robot_id r) prev)
      in case path r of
           [] \<Rightarrow> Inl IndexError
         | _ # rest \<Rightarrow>
             if rest = []
             then Inr (r\<lparr>path := rest, status := TASK_COMPLETE\<rparr>,
                       release_vertex tm1 (robot_id r) (current_vertex r))
             else Inr (r\<lparr>path := rest\<rparr>, tm1))"

text \<open>\<open>robot.path[0]\<close> raises IndexError on an empty path.\<close>

definition process_movement ::
  "nav_graph \<Rightarrow> traffic_manager \<Rightarrow> robot \<Rightarrow> real \<Rightarrow> error + robot \<times> traffic_manager" where
  "process_movement g tm r delta_time =
     (case path r of
        [] \<Rightarrow> Inl IndexError
      | next_vertex # _ \<Rightarrow>
          let (ok, tm1) = can_move_to tm r next_vertex in
          if ok
          then (case update_position g r delta_time of
                  Inl e \<Rightarrow> Inl e
                | Inr (r1, _) \<Rightarrow>
                    if current_vertex r1 = next_vertex
                    then handle_vertex_reached tm1 r1 next_vertex
                    else Inr (r1, tm1))
          else Inr (r\<lparr>status := WAITING\<rparr>, tm1))"

text \<open>\<open>if new_path\<close> is false for Python's \<open>None\<close> and for the empty list.\<close>

definition check_waiting_robot ::
  "nav_graph \<Rightarrow> traffic_manager \<Rightarrow> robot \<Rightarrow> robot outcome" where
  "check_waiting_robot g tm r =
     (let occupied = get_occupied_vertices tm in
      case find_shortest_path g (current_vertex r) (destination_vertex r) occupied of
        None \<Rightarrow> None
      | Some (Inl e) \<Rightarrow> Some (Inl e)
      | Some (Inr new_path) \<Rightarrow>
          (case new_path of
             None \<Rightarrow> Some (Inr r)
           | Some p \<Rightarrow>
               if p = [] then Some (Inr r)
               else Some (Inr (r\<lparr>path := p, status := MOVING\<rparr>))))"

text \<open>
  The two loops of \<open>update_robots\<close>. Each runs over the robots in dictionary order; a
  step changes only the robot it is at and the reservation ledger, so the loop is a
  recursion over the entries that threads the ledger through and returns the entries
  with their robots updated.
\<close>

fun movement_pass ::
  "nav_graph \<Rightarrow> real \<Rightarrow> traffic_manager \<Rightarrow> (int \<times> robot) list
     \<Rightarrow> error + (int \<times> robot) list \<times> traffic_manager" where
  "movement_pass g delta_time tm [] = Inr ([], tm)"
| "movement_pass g delta_time tm ((k, r) # rest) =
     (if status r = MOVING \<and> path r \<noteq> []
      then (case process_movement g tm r delta_time of
              Inl e \<Rightarrow> Inl e
            | Inr (r1, tm1) \<Rightarrow>
                (case movement_pass g delta_time tm1 rest of
                   Inl e \<Rightarrow> Inl e
                 | Inr (rest1, tm2) \<Rightarrow> Inr ((k, r1) # rest1, tm2)))
      else (case movement_pass g delta_time tm rest of
              Inl e \<Rightarrow> Inl e
            | Inr (rest1, tm2) \<Rightarrow> Inr ((k, r) # rest1, tm2)))"

fun recovery_pass ::
  "nav_graph \<Rightarrow> traffic_manager \<Rightarrow> (int \<times> robot) list \<Rightarrow> (int \<times> robot) list outcome" where
  "recovery_pass g tm [] = Some (Inr [])"
| "recovery_pass g tm ((k, r) # rest) =
     (if status r = WAITING \<and> path r \<noteq> []
      then (case check_waiting_robot g tm r of
              None \<Rightarrow> None
            | Some (Inl e) \<Rightarrow> Some (Inl e)
            | Some (Inr r1) \<Rightarrow>
                (case recovery_pass g tm rest of
                   None \<Rightarrow> None
                 | Some (Inl e) \<Rightarrow> Some (Inl e)
                 | Some (Inr rest1) \<Rightarrow> Some (Inr ((k, r1) # rest1))))
      else (case recovery_pass g tm rest of
              None \<Rightarrow> None
            | Some (Inl e) \<Rightarrow> Some (Inl e)
            | Some (Inr rest1) \<Rightarrow> Some (Inr ((k, r) # rest1))))"

definition update_robots :: "fleet_manager \<Rightarrow> real \<Rightarrow> fleet_manager outcome" where
  "update_robots fm delta_time =
     (case movement_pass (nav_graph fm) delta_time (traffic_manager fm) (robots fm) of
        Inl e \<Rightarrow> Some (Inl e)
      | Inr (moved, tm) \<Rightarrow>
          (case recovery_pass (nav_graph fm) tm moved of
             None \<Rightarrow> None
           | Some (Inl e) \<Rightarrow> Some (Inl e)
           | Some (Inr recovered) \<Rightarrow>
               Some (Inr (fm\<lparr>robots := recovered, traffic_manager := tm\<rparr>))))"

section \<open>Reachable fleet states\<close>

text \<open>
  The fleet managers reachable from a fresh one through the operations of the fleet
  manager, through \<open>charge\<close> and \<open>stop_charging\<close> applied to one of its robots, and through
  the removal of a robot from the \<open>robots\<close> dictionary (which the user interface does with
  \<open>del\<close>).
\<close>

inductive reachable_fleet :: "fleet_manager \<Rightarrow> bool" where
  fleet_init: "reachable_fleet (FleetManager_init g)"
| fleet_spawn: "reachable_fleet fm \<Longrightarrow> reachable_fleet (snd (spawn_robot fm vertex_id))"
| fleet_assign:
    "reachable_fleet fm \<Longrightarrow> assign_task fm rid destination = Some (Inr (ok, fm')) \<Longrightarrow>
       reachable_fleet fm'"
| fleet_update:
    "reachable_fleet fm \<Longrightarrow> update_robots fm delta_time = Some (Inr fm') \<Longrightarrow>
       reachable_fleet fm'"
| fleet_charge:
    "reachable_fleet fm \<Longrightarrow> map_of (robots fm) rid = Some r \<Longrightarrow>
       reachable_fleet (fm\<lparr>robots := AList.update rid (charge r) (robots fm)\<rparr>)"
| fleet_stop_charging:
    "reachable_fleet fm \<Longrightarrow> map_of (robots fm) rid = Some r \<Longrightarrow>
       reachable_fleet (fm\<lparr>robots := AList.update rid (stop_charging r) (robots fm)\<rparr>)"
| fleet_remove:
    "reachable_fleet fm \<Longrightarrow>
       reachable_fleet (fm\<lparr>robots := AList.delete rid (robots fm)\<rparr>)"

section \<open>Example topologies\<close>

text \<open>
  Three vertices in a line at unit distance, lanes \<open>0-1\<close> and \<open>1-2\<close> without speed limit, as
  \<open>NavGraph_init\<close> builds it.
\<close>

definition line_graph :: nav_graph where
  "line_graph =
     \<lparr>vertices = [\<lparr>vx = 0, vy = 0\<rparr>, \<lparr>vx = 1, vy = 0\<rparr>, \<lparr>vx = 2, vy = 0\<rparr>],
      lanes = [(0, 1, None), (1, 2, None)],
      adjacency_list = [(0, [1]), (1, [0, 2]), (2, [1])],
      lane_properties = [((0, 1), None), ((1, 0), None), ((1, 2), None), ((2, 1), None)]\<rparr>"


text \<open>Two vertices and no lane.\<close>

definition isolated_graph :: nav_graph where
  "isolated_graph =
     \<lparr>vertices = [\<lparr>vx = 0, vy = 0\<rparr>, \<lparr>vx = 1, vy = 0\<rparr>],
      lanes = [],
      adjacency_list = [(0, []), (1, [])],
      lane_properties = []\<rparr>"


section \<open>Example fleets\<close>

text \<open>
  Agent \<open>0\<close> with nominal speed \<open>1\<close> and no progress on its edge, and a fleet manager on the
  line graph with an empty lane ledger whose next id is the number of its agents.
\<close>

definition line_agent ::
  "int option \<Rightarrow> int \<Rightarrow> int option \<Rightarrow> int list \<Rightarrow> robot_status \<Rightarrow> robot" where
  "line_agent dest cur prev p st =
     \<lparr>robot_id = 0, current_vertex = cur, previous_vertex = prev, destination_vertex = dest,
      path = p, status = st, speed = 1, progress = 0\<rparr>"

definition line_fleet :: "(int \<times> robot) list \<Rightarrow> (int \<times> int) list \<Rightarrow> fleet_manager" where
  "line_fleet rs occ =
     \<lparr>nav_graph = line_graph, robots = rs, next_robot_id = int (length rs),
      traffic_manager = \<lparr>lane_occupancy = [], vertex_occupancy = occ\<rparr>\<rparr>"

section \<open>Routes in the graph\<close>

text \<open>
  Two vertices are adjacent when a lane joins them, in either direction. A route from
  \<open>a\<close> to \<open>b\<close> is a non-empty list of vertices that starts at \<open>a\<close>, ends at \<open>b\<close> and
  moves along a lane at every step; it has \<open>length p - 1\<close> edges.
\<close>

definition adjacent :: "nav_graph \<Rightarrow> int \<Rightarrow> int \<Rightarrow> bool" where
  "adjacent g u v \<longleftrightarrow>
     list_ex (\<lambda>(a, b, props). (a = u \<and> b = v) \<or> (a = v \<and> b = u)) (lanes g)"

definition is_route :: "nav_graph \<Rightarrow> int \<Rightarrow> int \<Rightarrow> int list \<Rightarrow> bool" where
  "is_route g a b p \<longleftrightarrow> p \<noteq> [] \<and> hd p = a \<and> last p = b \<and> successively (adjacent g) p"

section \<open>Notions used in the proofs\<close>

text \<open>Every dictionary of the ledger has each key once.\<close>

definition ledger_distinct :: "traffic_manager \<Rightarrow> bool" where
  "ledger_distinct tm \<longleftrightarrow>
     distinct (map fst (vertex_occupancy tm)) \<and> distinct (map fst (lane_occupancy tm))"

text \<open>
  \<open>tree_path visited v p\<close>: following the parents recorded in \<open>visited\<close> from \<open>v\<close> ends at
  an entry without parent, and \<open>p\<close> lists the vertices passed, \<open>v\<close> first.
\<close>

inductive tree_path :: "(int \<rightharpoonup> int option) \<Rightarrow> int \<Rightarrow> int list \<Rightarrow> bool"
  for visited :: "int \<rightharpoonup> int option" where
  tree_root: "visited v = Some None \<Longrightarrow> tree_path visited v [v]"
| tree_step: "visited v = Some (Some u) \<Longrightarrow> tree_path visited u p \<Longrightarrow> tree_path visited v (v # p)"

text \<open>Every visited vertex has such a chain of parents.\<close>

definition rooted :: "(int \<rightharpoonup> int option) \<Rightarrow> bool" where
  "rooted visited \<longleftrightarrow> (\<forall>v \<in> dom visited. \<exists>p. tree_path visited v p)"

text \<open>
  \<open>nbr adj occ u v\<close>: the search may step from \<open>u\<close> to \<open>v\<close>, that is, \<open>v\<close> is in the
  adjacency list of \<open>u\<close> and not occupied. \<open>reach adj occ s k v\<close>: \<open>k\<close> such steps
  lead from \<open>s\<close> to \<open>v\<close>; \<open>hops\<close> is the least such \<open>k\<close>.
\<close>

definition nbr :: "adjacency \<Rightarrow> int set \<Rightarrow> int \<Rightarrow> int \<Rightarrow> bool" where
  "nbr adj occ u v \<longleftrightarrow> v \<notin> occ \<and> (\<exists>ns. map_of adj u = Some ns \<and> v \<in> set ns)"

inductive reach :: "adjacency \<Rightarrow> int set \<Rightarrow> int \<Rightarrow> nat \<Rightarrow> int \<Rightarrow> bool"
  for adj :: adjacency and occ :: "int set" and s :: int where
  reach_0: "reach adj occ s 0 s"
| reach_Suc: "reach adj occ s k u \<Longrightarrow> nbr adj occ u v \<Longrightarrow> reach adj occ s (Suc k) v"

definition hops :: "adjacency \<Rightarrow> int set \<Rightarrow> int \<Rightarrow> int \<Rightarrow> nat" where
  "hops adj occ s v = (LEAST k. reach adj occ s k v)"

text \<open>
  The invariant of the \<open>while\<close> loop, for the queue with the vertex being expanded at its
  head: parents are one step closer to the start, the queue is sorted by distance and
  spans at most two levels, every visited vertex that has left the queue has all its
  neighbours visited, and every vertex at most as far as the head of the queue is
  visited.
\<close>

definition bfs_inv ::
  "adjacency \<Rightarrow> int set \<Rightarrow> int \<Rightarrow> (int \<rightharpoonup> int option) \<Rightarrow> int list \<Rightarrow> bool" where
  "bfs_inv adj occ s visited q \<longleftrightarrow>
     (\<forall>v. visited v = Some None \<longleftrightarrow> v = s)
   \<and> (\<forall>v u. visited v = Some (Some u) \<longrightarrow>
          u \<in> dom visited \<and> nbr adj occ u v \<and> hops adj occ s v = hops adj occ s u + 1)
   \<and> (\<forall>v \<in> dom visited. \<exists>k. reach adj occ s k v)
   \<and> set q \<subseteq> dom visited
   \<and> sorted (map (hops adj occ s) q)
   \<and> (q \<noteq> [] \<longrightarrow> hops adj occ s (last q) \<le> hops adj occ s (hd q) + 1)
   \<and> (\<forall>v \<in> dom visited. v \<notin> set q \<longrightarrow> (\<forall>w. nbr adj occ v w \<longrightarrow> w \<in> dom visited))
   \<and> (q \<noteq> [] \<longrightarrow>
        (\<forall>w k. reach adj occ s k w \<and> hops adj occ s w \<le> hops adj occ s (hd q) \<longrightarrow>
           w \<in> dom visited))"

text \<open>
  A walk from \<open>s\<close> to \<open>b\<close> along such steps whose number of edges is the distance.
\<close>

definition shortest_walk :: "adjacency \<Rightarrow> int set \<Rightarrow> int \<Rightarrow> int \<Rightarrow> int list \<Rightarrow> bool" where
  "shortest_walk adj occ s b p \<longleftrightarrow>
     p \<noteq> [] \<and> hd p = s \<and> last p = b \<and> successively (nbr adj occ) p
     \<and> length p = hops adj occ s b + 1"

text \<open>An entry of the adjacency dictionary, and a lane of the lane list, joining two vertices.\<close>

definition has_edge :: "adjacency \<Rightarrow> int \<Rightarrow> int \<Rightarrow> bool" where
  "has_edge adj u v \<longleftrightarrow> (\<exists>ns. map_of adj u = Some ns \<and> v \<in> set ns)"

definition lane_between :: "lane list \<Rightarrow> int \<Rightarrow> int \<Rightarrow> bool" where
  "lane_between ls u v \<longleftrightarrow>
     list_ex (\<lambda>(a, b, props). (a = u \<and> b = v) \<or> (a = v \<and> b = u)) ls"

text \<open>
  The invariant of the reachable fleet states: the ledger's keys are distinct and every
  id in use is below the id counter.
\<close>

definition ids_below :: "(int \<times> robot) list \<Rightarrow> int \<Rightarrow> bool" where
  "ids_below rs n \<longleftrightarrow> (\<forall>k \<in> fst ` set rs. k < n)"

definition fleet_inv :: "fleet_manager \<Rightarrow> bool" where
  "fleet_inv fm \<longleftrightarrow>
     ledger_distinct (traffic_manager fm) \<and> ids_below (robots fm) (next_robot_id fm)"

section \<open>Properties of the reservation ledger\<close>

lemma ledger_distinct_init: "ledger_distinct TrafficManager_init"
  by (simp add: ledger_distinct_def TrafficManager_init_def)

lemma ledger_distinct_request_vertex:
  "ledger_distinct tm \<Longrightarrow> ledger_distinct (snd (request_vertex tm a v))"
  by (simp add: ledger_distinct_def request_vertex_def distinct_update)

lemma ledger_distinct_request_lane:
  "ledger_distinct tm \<Longrightarrow> ledger_distinct (snd (request_lane tm a u v))"
  by (simp add: ledger_distinct_def request_lane_def Let_def distinct_update)

lemma ledger_distinct_release_vertex:
  "ledger_distinct tm \<Longrightarrow> ledger_distinct (release_vertex tm a v)"
  by (simp add: ledger_distinct_def release_vertex_def distinct_delete)

lemma ledger_distinct_release_lane:
  "ledger_distinct tm \<Longrightarrow> ledger_distinct (release_lane tm a u v)"
  by (simp add: ledger_distinct_def release_lane_def Let_def distinct_delete)

lemma reachable_ledger_distinct: "reachable_ledger tm \<Longrightarrow> ledger_distinct tm"
  by (induction rule: reachable_ledger.induct)
     (simp_all add: ledger_distinct_init ledger_distinct_request_vertex
        ledger_distinct_request_lane ledger_distinct_release_vertex
        ledger_distinct_release_lane)

lemma holds_vertex_map_of:
  "ledger_distinct tm \<Longrightarrow>
     holds_vertex tm a v \<longleftrightarrow> map_of (vertex_occupancy tm) v = Some a"
  by (simp add: ledger_distinct_def holds_vertex_def)

lemma holds_lane_map_of:
  "ledger_distinct tm \<Longrightarrow>
     holds_lane tm a u v \<longleftrightarrow> map_of (lane_occupancy tm) (normalize_lane u v) = Some a"
  by (simp add: ledger_distinct_def holds_lane_def)

lemma key_in_alist_iff: "k \<in> fst ` set al \<longleftrightarrow> map_of al k \<noteq> None"
  by (simp add: map_of_eq_None_iff)

lemma request_vertex_denied:
  assumes "ledger_distinct tm" "holds_vertex tm b v" "b \<noteq> a"
  shows "request_vertex tm a v = (False, tm)"
  using assms by (auto simp: holds_vertex_map_of request_vertex_def key_in_alist_iff)

lemma request_vertex_granted:
  assumes "ledger_distinct tm" "\<forall>b. holds_vertex tm b v \<longrightarrow> b = a"
  shows "fst (request_vertex tm a v) \<and> holds_vertex (snd (request_vertex tm a v)) a v"
proof -
  have free: "map_of (vertex_occupancy tm) v = None \<or> map_of (vertex_occupancy tm) v = Some a"
    using assms by (cases "map_of (vertex_occupancy tm) v") (auto simp: holds_vertex_map_of)
  then have req: "request_vertex tm a v
      = (True, tm\<lparr>vertex_occupancy := AList.update v a (vertex_occupancy tm)\<rparr>)"
    by (auto simp: request_vertex_def key_in_alist_iff)
  have "ledger_distinct (snd (request_vertex tm a v))"
    using assms(1) by (rule ledger_distinct_request_vertex)
  then show ?thesis
    by (simp add: holds_vertex_map_of) (simp add: req update_conv')
qed

lemma request_lane_denied:
  assumes "ledger_distinct tm" "holds_lane tm b u v" "b \<noteq> a"
  shows "request_lane tm a u v = (False, tm)"
  using assms by (auto simp: holds_lane_map_of request_lane_def key_in_alist_iff Let_def)

lemma request_lane_granted:
  assumes "ledger_distinct tm" "\<forall>b. holds_lane tm b u v \<longrightarrow> b = a"
  shows "fst (request_lane tm a u v) \<and> holds_lane (snd (request_lane tm a u v)) a u v"
proof -
  let ?k = "normalize_lane u v"
  have free: "map_of (lane_occupancy tm) ?k = None \<or> map_of (lane_occupancy tm) ?k = Some a"
    using assms by (cases "map_of (lane_occupancy tm) ?k") (auto simp: holds_lane_map_of)
  then have req: "request_lane tm a u v
      = (True, tm\<lparr>lane_occupancy := AList.update ?k a (lane_occupancy tm)\<rparr>)"
    by (auto simp: request_lane_def key_in_alist_iff Let_def)
  have "ledger_distinct (snd (request_lane tm a u v))"
    using assms(1) by (rule ledger_distinct_request_lane)
  then show ?thesis
    by (simp add: holds_lane_map_of) (simp add: req update_conv')
qed

lemma holds_lane_commute: "holds_lane tm a v u \<longleftrightarrow> holds_lane tm a u v"
  by (simp add: holds_lane_def normalize_lane_def min.commute max.commute)

text \<open>
  Claim C1 (mutual exclusion of holds). In every ledger reachable from the empty one by
  request and release calls, a vertex has at most one holder and a lane has at most one
  holder, whichever direction it is named in; a request for a resource that a different
  agent holds returns false and leaves the ledger as it was; a request for a resource
  that no other agent holds returns true and records the requester as the holder.
\<close>

theorem mutual_exclusion:
  assumes "reachable_ledger tm"
  shows "(\<forall>a b v. holds_vertex tm a v \<and> holds_vertex tm b v \<longrightarrow> a = b)
       \<and> (\<forall>a b u v. holds_lane tm a u v \<and> (holds_lane tm b u v \<or> holds_lane tm b v u) \<longrightarrow> a = b)
       \<and> (\<forall>a b v. holds_vertex tm b v \<and> b \<noteq> a \<longrightarrow> request_vertex tm a v = (False, tm))
       \<and> (\<forall>a b u v. holds_lane tm b u v \<and> b \<noteq> a \<longrightarrow> request_lane tm a u v = (False, tm))
       \<and> (\<forall>a v. (\<forall>b. holds_vertex tm b v \<longrightarrow> b = a) \<longrightarrow>
             fst (request_vertex tm a v) \<and> holds_vertex (snd (request_vertex tm a v)) a v)
       \<and> (\<forall>a u v. (\<forall>b. holds_lane tm b u v \<longrightarrow> b = a) \<longrightarrow>
             fst (request_lane tm a u v) \<and> holds_lane (snd (request_lane tm a u v)) a u v)"
proof -
  have d: "ledger_distinct tm"
    using assms by (rule reachable_ledger_distinct)
  have v1: "\<forall>a b v. holds_vertex tm a v \<and> holds_vertex tm b v \<longrightarrow> a = b"
    using d by (auto simp: holds_vertex_map_of)
  have l1: "\<forall>a b u v. holds_lane tm a u v \<and> (holds_lane tm b u v \<or> holds_lane tm b v u)
              \<longrightarrow> a = b"
    using d by (auto simp: holds_lane_map_of holds_lane_commute)
  have v2: "\<forall>a b v. holds_vertex tm b v \<and> b \<noteq> a \<longrightarrow> request_vertex tm a v = (False, tm)"
    using d request_vertex_denied by blast
  have l2: "\<forall>a b u v. holds_lane tm b u v \<and> b \<noteq> a \<longrightarrow> request_lane tm a u v = (False, tm)"
    using d request_lane_denied by blast
  have v3: "\<forall>a v. (\<forall>b. holds_vertex tm b v \<longrightarrow> b = a) \<longrightarrow>
             fst (request_vertex tm a v) \<and> holds_vertex (snd (request_vertex tm a v)) a v"
    using d request_vertex_granted by blast
  have l3: "\<forall>a u v. (\<forall>b. holds_lane tm b u v \<longrightarrow> b = a) \<longrightarrow>
             fst (request_lane tm a u v) \<and> holds_lane (snd (request_lane tm a u v)) a u v"
    using d request_lane_granted by blast
  from v1 l1 v2 l2 v3 l3 show ?thesis by blast
qed

theorem mutual_exclusion_witness:
  "reachable_ledger (snd (request_lane (snd (request_vertex TrafficManager_init 1 5)) 1 5 6))
   \<and> holds_vertex (snd (request_lane (snd (request_vertex TrafficManager_init 1 5)) 1 5 6)) 1 5
   \<and> holds_lane (snd (request_lane (snd (request_vertex TrafficManager_init 1 5)) 1 5 6)) 1 6 5
   \<and> request_vertex (snd (request_lane (snd (request_vertex TrafficManager_init 1 5)) 1 5 6)) 2 5
       = (False, snd (request_lane (snd (request_vertex TrafficManager_init 1 5)) 1 5 6))
   \<and> request_lane (snd (request_lane (snd (request_vertex TrafficManager_init 1 5)) 1 5 6)) 2 6 5
       = (False, snd (request_lane (snd (request_vertex TrafficManager_init 1 5)) 1 5 6))
   \<and> fst (request_vertex (snd (request_lane (snd (request_vertex TrafficManager_init 1 5)) 1 5 6)) 1 5)
   \<and> fst (request_lane (snd (request_lane (snd (request_vertex TrafficManager_init 1 5)) 1 5 6)) 2 6 7)"
proof -
  let ?T = "snd (request_lane (snd (request_vertex TrafficManager_init 1 5)) 1 5 6)"
  have r: "reachable_ledger ?T"
    by (intro reachable_ledger.intros)
  have hv: "holds_vertex ?T 1 5" and hl: "holds_lane ?T 1 6 5"
    by (simp_all add: holds_vertex_def holds_lane_def request_lane_def request_vertex_def
          TrafficManager_init_def normalize_lane_def Let_def)
  have nl: "\<forall>b. holds_lane ?T b 6 7 \<longrightarrow> b = 2"
    by (simp add: holds_lane_def request_lane_def request_vertex_def
          TrafficManager_init_def normalize_lane_def Let_def)
  have ne: "(1::int) \<noteq> 2"
    by simp
  note m = mutual_exclusion [OF r]
  from m hv ne have a: "request_vertex ?T 2 5 = (False, ?T)"
    by blast
  from m hl ne have b: "request_lane ?T 2 6 5 = (False, ?T)"
    by blast
  from m hv have c: "fst (request_vertex ?T 1 5)"
    by blast
  from m nl have d: "fst (request_lane ?T 2 6 7)"
    by blast
  from r hv hl a b c d show ?thesis by blast
qed

section \<open>Task assignment to a charging or unknown agent\<close>

text \<open>
  Claim C6 (charging precondition with atomicity). When the agent id is unknown, or the
  agent exists and is CHARGING, \<open>assign_task\<close> returns false and the fleet manager it
  leaves behind is the one it was given: no agent's status, path or destination and no
  entry of the reservation ledger has changed.
\<close>

theorem assign_task_refused:
  assumes "map_of (robots fm) rid = None
           \<or> (\<exists>r. map_of (robots fm) rid = Some r \<and> status r = CHARGING)"
  shows "assign_task fm rid destination = Some (Inr (False, fm))"
  using assms by (auto simp: assign_task_def)

theorem assign_task_refused_witness:
  "status (charge (Robot_init 0 0)) = CHARGING
   \<and> assign_task \<lparr>nav_graph = line_graph, robots = [(0, charge (Robot_init 0 0))],
         next_robot_id = 1,
         traffic_manager = \<lparr>lane_occupancy = [], vertex_occupancy = [(0, 0)]\<rparr>\<rparr> 0 2
     = Some (Inr (False, \<lparr>nav_graph = line_graph, robots = [(0, charge (Robot_init 0 0))],
         next_robot_id = 1,
         traffic_manager = \<lparr>lane_occupancy = [], vertex_occupancy = [(0, 0)]\<rparr>\<rparr>))
   \<and> assign_task \<lparr>nav_graph = line_graph, robots = [(0, charge (Robot_init 0 0))],
         next_robot_id = 1,
         traffic_manager = \<lparr>lane_occupancy = [], vertex_occupancy = [(0, 0)]\<rparr>\<rparr> 7 2
     = Some (Inr (False, \<lparr>nav_graph = line_graph, robots = [(0, charge (Robot_init 0 0))],
         next_robot_id = 1,
         traffic_manager = \<lparr>lane_occupancy = [], vertex_occupancy = [(0, 0)]\<rparr>\<rparr>))"
proof -
  let ?fm = "\<lparr>nav_graph = line_graph, robots = [(0, charge (Robot_init 0 0))],
         next_robot_id = 1,
         traffic_manager = \<lparr>lane_occupancy = [], vertex_occupancy = [(0, 0)]\<rparr>\<rparr>"
  have c: "status (charge (Robot_init 0 0)) = CHARGING"
    by (simp add: charge_def Robot_init_def)
  have k: "map_of (robots ?fm) 0 = Some (charge (Robot_init 0 0))"
    and u: "map_of (robots ?fm) 7 = None"
    by simp_all
  from k c have "\<exists>r. map_of (robots ?fm) 0 = Some r \<and> status r = CHARGING"
    by blast
  then have a: "assign_task ?fm 0 2 = Some (Inr (False, ?fm))"
    using assign_task_refused [of ?fm 0 2] by blast
  from u have b: "assign_task ?fm 7 2 = Some (Inr (False, ?fm))"
    using assign_task_refused [of ?fm 7 2] by blast
  from c a b show ?thesis by simp
qed

section \<open>A vertex hold granted before a denied lane\<close>

lemma update_in_set: "(k, v) \<in> set (AList.update k v al)"
  by (induction al) auto

lemma request_vertex_True_holds:
  "request_vertex tm a v = (True, tm1) \<Longrightarrow> holds_vertex tm1 a v"
  by (auto simp: request_vertex_def holds_vertex_def update_in_set split: if_splits)

lemma request_lane_False_same:
  "request_lane tm a u v = (False, tm2) \<Longrightarrow> tm2 = tm"
  by (auto simp: request_lane_def Let_def split: if_splits)

text \<open>
  Claim C10 (partial acquisition is retained). When the head of the path differs from the
  agent's current vertex, the vertex request is granted and the lane request that follows
  is denied, the movement step sets the agent to WAITING without moving it or touching
  its path, and the ledger it leaves behind is the one after the vertex request: the
  waiting agent holds the next vertex, which it does not occupy.
\<close>

theorem partial_acquisition_retained:
  assumes "path r = next_vertex # rest"
    and "next_vertex \<noteq> current_vertex r"
    and "request_vertex tm (robot_id r) next_vertex = (True, tm1)"
    and "request_lane tm1 (robot_id r) (current_vertex r) next_vertex = (False, tm2)"
  shows "process_movement g tm r delta_time = Inr (r\<lparr>status := WAITING\<rparr>, tm1)
       \<and> current_vertex (r\<lparr>status := WAITING\<rparr>) = current_vertex r
       \<and> path (r\<lparr>status := WAITING\<rparr>) = path r
       \<and> holds_vertex tm1 (robot_id r) next_vertex"
proof -
  from assms(4) have same: "tm2 = tm1"
    by (rule request_lane_False_same)
  from assms(2,3,4) have "can_move_to tm r next_vertex = (False, tm1)"
    by (simp add: can_move_to_def same)
  with assms(1) have "process_movement g tm r delta_time = Inr (r\<lparr>status := WAITING\<rparr>, tm1)"
    by (simp add: process_movement_def)
  moreover from assms(3) have "holds_vertex tm1 (robot_id r) next_vertex"
    by (rule request_vertex_True_holds)
  ultimately show ?thesis by simp
qed

theorem partial_acquisition_retained_witness:
  "process_movement line_graph \<lparr>lane_occupancy = [((0, 1), 0)], vertex_occupancy = [(0, 0)]\<rparr>
     \<lparr>robot_id = 1, current_vertex = 0, previous_vertex = Some 0, destination_vertex = Some 1,
      path = [1], status = MOVING, speed = 1, progress = 0\<rparr> 1
   = Inr (\<lparr>robot_id = 1, current_vertex = 0, previous_vertex = Some 0,
           destination_vertex = Some 1, path = [1], status = WAITING, speed = 1, progress = 0\<rparr>,
          \<lparr>lane_occupancy = [((0, 1), 0)], vertex_occupancy = [(0, 0), (1, 1)]\<rparr>)
   \<and> holds_vertex \<lparr>lane_occupancy = [((0, 1), 0)], vertex_occupancy = [(0, 0), (1, 1)]\<rparr> 1 1"
proof -
  let ?tm = "\<lparr>lane_occupancy = [((0, 1), 0)], vertex_occupancy = [(0, 0)]\<rparr>"
  let ?tm1 = "\<lparr>lane_occupancy = [((0, 1), 0)], vertex_occupancy = [(0, 0), (1, 1)]\<rparr>"
  let ?r = "\<lparr>robot_id = 1, current_vertex = 0, previous_vertex = Some 0,
      destination_vertex = Some 1, path = [1], status = MOVING, speed = 1, progress = 0\<rparr>"
  have p: "path ?r = 1 # []" and n: "1 \<noteq> current_vertex ?r"
    by simp_all
  have v: "request_vertex ?tm (robot_id ?r) 1 = (True, ?tm1)"
    by (simp add: request_vertex_def)
  have l: "request_lane ?tm1 (robot_id ?r) (current_vertex ?r) 1 = (False, ?tm1)"
    by (simp add: request_lane_def normalize_lane_def)
  from partial_acquisition_retained [OF p n v l, of line_graph 1] show ?thesis
    by simp
qed

section \<open>Degenerate edges in \<open>update_position\<close>\<close>




lemma update_position_unfold:
  assumes "dst = delta_time *
             (if get_lane_speed_limit g (current_vertex r) (hd (path r)) = 0 then speed r
              else min (speed r) (get_lane_speed_limit g (current_vertex r) (hd (path r))))"
  shows "update_position g r delta_time =
     (if status r \<noteq> MOVING \<or> path r = [] then Inr (r, False)
      else case distance_to_next g r of
             Inl e \<Rightarrow> Inl e
           | Inr d \<Rightarrow>
               if (1 - progress r) * d \<le> dst
               then Inr (r\<lparr>previous_vertex := Some (current_vertex r),
                           current_vertex := hd (path r), progress := 0\<rparr>, True)
               else if d = 0 then Inl ZeroDivisionError
               else Inr (r\<lparr>progress := progress r + dst / d\<rparr>, True))"
  unfolding assms update_position_def Let_def
  by (cases "distance_to_next g r") simp_all




section \<open>The search returns on every input\<close>

lemma reconstruct_tree_path:
  "tree_path visited v p \<Longrightarrow> reconstruct visited (Some v) acc = Some (Inr (acc @ p))"
proof (induction arbitrary: acc rule: tree_path.induct)
  case (tree_root v)
  then show ?case
    by (simp add: reconstruct.simps [of visited "Some v"] reconstruct.simps [of visited None])
next
  case (tree_step v u p)
  then show ?case
    by (simp add: reconstruct.simps [of visited "Some v"])
qed

lemma tree_path_extend:
  "tree_path visited v p \<Longrightarrow> visited n = None \<Longrightarrow> tree_path (visited(n \<mapsto> x)) v p"
proof (induction rule: tree_path.induct)
  case (tree_root v)
  then have "(visited(n \<mapsto> x)) v = Some None" by auto
  then show ?case by (rule tree_path.tree_root)
next
  case (tree_step v u p)
  then have "(visited(n \<mapsto> x)) v = Some (Some u)" by auto
  with tree_step show ?case by (auto intro: tree_path.tree_step)
qed

lemma rooted_extend:
  assumes "rooted visited" "c \<in> dom visited" "visited n = None"
  shows "rooted (visited(n \<mapsto> Some c))"
  unfolding rooted_def
proof
  fix v assume v: "v \<in> dom (visited(n \<mapsto> Some c))"
  from assms(1,2) obtain pc where pc: "tree_path visited c pc"
    by (auto simp: rooted_def)
  show "\<exists>p. tree_path (visited(n \<mapsto> Some c)) v p"
  proof (cases "v = n")
    case True
    have "tree_path (visited(n \<mapsto> Some c)) n (n # pc)"
      by (rule tree_path.tree_step [where u = c]) (simp_all add: tree_path_extend [OF pc assms(3)])
    with True show ?thesis by blast
  next
    case False
    with v have "v \<in> dom visited" by auto
    with assms(1) obtain p where "tree_path visited v p"
      by (auto simp: rooted_def)
    from tree_path_extend [OF this assms(3)] show ?thesis by blast
  qed
qed

lemma scan_neighbors_total:
  assumes "rooted visited" "current \<in> dom visited"
  shows "case scan_neighbors current end_v occupied visited queue nbrs of
           Found r \<Rightarrow> \<exists>p. r = Some (Inr p)
         | Next visited' queue' \<Rightarrow>
             rooted visited' \<and> dom visited \<subseteq> dom visited'
             \<and> set queue' \<subseteq> set queue \<union> dom visited'"
  using assms
proof (induction nbrs arbitrary: visited queue)
  case Nil
  then show ?case by auto
next
  case (Cons n rest)
  show ?case
  proof (cases "\<not> (n \<in> occupied \<or> n = current) \<and> visited n = None")
    case False
    then have "scan_neighbors current end_v occupied visited queue (n # rest)
        = scan_neighbors current end_v occupied visited queue rest"
      by auto
    with Cons.IH [OF Cons.prems] show ?thesis by simp
  next
    case True
    let ?v = "visited(n \<mapsto> Some current)"
    from True have fresh: "visited n = None" by simp
    have r: "rooted ?v"
      using Cons.prems fresh by (rule rooted_extend)
    have c: "current \<in> dom ?v"
      using Cons.prems(2) by auto
    show ?thesis
    proof (cases "Some n = end_v")
      case e: True
      from r obtain p where "tree_path ?v n p"
        by (auto simp: rooted_def)
      then have "reconstruct ?v (Some n) [] = Some (Inr p)"
        using reconstruct_tree_path [of ?v n p "[]"] by simp
      with True e show ?thesis by simp
    next
      case e: False
      with True have eq: "scan_neighbors current end_v occupied visited queue (n # rest)
          = scan_neighbors current end_v occupied ?v (queue @ [n]) rest"
        by simp
      have "case scan_neighbors current end_v occupied ?v (queue @ [n]) rest of
           Found r \<Rightarrow> \<exists>p. r = Some (Inr p)
         | Next visited' queue' \<Rightarrow>
             rooted visited' \<and> dom ?v \<subseteq> dom visited'
             \<and> set queue' \<subseteq> set (queue @ [n]) \<union> dom visited'"
        by (rule Cons.IH [OF r c])
      then show ?thesis
        unfolding eq by (auto split: scan.splits)
    qed
  qed
qed

lemma bfs_loop_total:
  "rooted visited \<Longrightarrow> set queue \<subseteq> dom visited \<Longrightarrow>
     \<exists>res. bfs_loop adj end_v occupied visited queue = Some res"
proof (induction adj end_v occupied visited queue rule: bfs_loop.induct)
  case (1 adj end_v occupied visited)
  then show ?case by simp
next
  case (2 adj end_v occupied visited current queue)
  show ?case
  proof (cases "map_of adj current")
    case None
    then show ?thesis by simp
  next
    case (Some nbrs)
    from "2.prems" have c: "current \<in> dom visited" by simp
    note sc = scan_neighbors_total [OF "2.prems"(1) c,
        where end_v = end_v and occupied = occupied and queue = queue and nbrs = nbrs]
    show ?thesis
    proof (cases "scan_neighbors current end_v occupied visited queue nbrs")
      case (Found r)
      with sc obtain p where "r = Some (Inr p)" by auto
      with Some Found show ?thesis by simp
    next
      case (Next visited' queue')
      with sc have r: "rooted visited'" and m: "dom visited \<subseteq> dom visited'"
        and n: "set queue' \<subseteq> set queue \<union> dom visited'"
        by auto
      from "2.prems"(2) have "set queue \<subseteq> dom visited" by simp
      with m n have q: "set queue' \<subseteq> dom visited'" by blast
      from "2.IH" [OF Some Next r q] Some Next show ?thesis by simp
    qed
  qed
qed

lemma find_shortest_path_total:
  "\<exists>res. find_shortest_path g start end_v occupied_vertices = Some res"
proof (cases "Some start = end_v")
  case True
  then show ?thesis by (simp add: find_shortest_path_def)
next
  case False
  have "tree_path [start \<mapsto> None] start [start]"
    by (rule tree_path.tree_root) simp
  then have "rooted [start \<mapsto> None]"
    by (auto simp: rooted_def split: if_splits)
  then have "\<exists>res. bfs_loop (adjacency_list g) end_v (set occupied_vertices)
        [start \<mapsto> None] [start] = Some res"
    by (rule bfs_loop_total) simp
  with False show ?thesis by (simp add: find_shortest_path_def)
qed

section \<open>Correctness of the search\<close>

lemma hops_le: "reach adj occ s k v \<Longrightarrow> hops adj occ s v \<le> k"
  unfolding hops_def by (rule Least_le)

lemma reach_hops: "reach adj occ s k v \<Longrightarrow> reach adj occ s (hops adj occ s v) v"
  unfolding hops_def by (rule LeastI)

lemma reach_0_iff: "reach adj occ s 0 v \<longleftrightarrow> v = s"
  by (auto elim: reach.cases intro: reach_0)

lemma reach_Suc_iff:
  "reach adj occ s (Suc k) v \<longleftrightarrow> (\<exists>u. reach adj occ s k u \<and> nbr adj occ u v)"
  by (auto elim: reach.cases intro: reach_Suc)

lemma hops_start: "hops adj occ s s = 0"
  using hops_le [OF reach_0, of adj occ s] by simp

lemma hops_0_iff: "reach adj occ s k v \<Longrightarrow> hops adj occ s v = 0 \<longleftrightarrow> v = s"
  using reach_hops [of adj occ s k v] by (auto simp: reach_0_iff hops_start)

lemma hops_nbr:
  assumes "reach adj occ s k u" "nbr adj occ u v"
  shows "hops adj occ s v \<le> hops adj occ s u + 1"
proof -
  from assms(1) have "reach adj occ s (hops adj occ s u) u" by (rule reach_hops)
  from this assms(2) have "reach adj occ s (Suc (hops adj occ s u)) v" by (rule reach_Suc)
  then show ?thesis using hops_le by fastforce
qed

lemma hops_pred:
  assumes "reach adj occ s k v" "v \<noteq> s"
  shows "\<exists>u j. reach adj occ s j u \<and> nbr adj occ u v \<and> hops adj occ s v = hops adj occ s u + 1"
proof -
  from assms have "hops adj occ s v \<noteq> 0"
    by (simp add: hops_0_iff)
  then obtain m where m: "hops adj occ s v = Suc m"
    by (cases "hops adj occ s v") auto
  from assms(1) have "reach adj occ s (Suc m) v"
    using reach_hops m by metis
  then obtain u where u: "reach adj occ s m u" "nbr adj occ u v"
    by (auto simp: reach_Suc_iff)
  from u(1) have "hops adj occ s u \<le> m" by (rule hops_le)
  moreover from hops_nbr [OF u] m have "m \<le> hops adj occ s u" by simp
  ultimately have "hops adj occ s v = hops adj occ s u + 1"
    using m by simp
  with u show ?thesis by blast
qed

lemma bfs_inv_init: "bfs_inv adj occ s [s \<mapsto> None] [s]"
proof -
  have "\<forall>w k. reach adj occ s k w \<and> hops adj occ s w \<le> hops adj occ s s \<longrightarrow> w = s"
    by (auto simp: hops_start hops_0_iff)
  moreover have "\<exists>k. reach adj occ s k s"
    by (blast intro: reach_0)
  ultimately show ?thesis
    unfolding bfs_inv_def by (simp add: domIff)
qed

lemma sorted_hops_le_last:
  "sorted (map f q) \<Longrightarrow> x \<in> set q \<Longrightarrow> f x \<le> f (last q)"
  by (induction q) (auto split: if_splits)

lemma sorted_hops_hd_le:
  "sorted (map f q) \<Longrightarrow> x \<in> set q \<Longrightarrow> f (hd q) \<le> f x"
  by (cases q) auto

lemma bfs_invI:
  assumes "\<forall>v. visited v = Some None \<longleftrightarrow> v = s"
    and "\<forall>v u. visited v = Some (Some u) \<longrightarrow>
          u \<in> dom visited \<and> nbr adj occ u v \<and> hops adj occ s v = hops adj occ s u + 1"
    and "\<forall>v \<in> dom visited. \<exists>k. reach adj occ s k v"
    and "set q \<subseteq> dom visited"
    and "sorted (map (hops adj occ s) q)"
    and "q \<noteq> [] \<longrightarrow> hops adj occ s (last q) \<le> hops adj occ s (hd q) + 1"
    and "\<forall>v \<in> dom visited. v \<notin> set q \<longrightarrow> (\<forall>w. nbr adj occ v w \<longrightarrow> w \<in> dom visited)"
    and "q \<noteq> [] \<longrightarrow>
        (\<forall>w k. reach adj occ s k w \<and> hops adj occ s w \<le> hops adj occ s (hd q) \<longrightarrow>
           w \<in> dom visited)"
  shows "bfs_inv adj occ s visited q"
  unfolding bfs_inv_def by (intro conjI) (rule assms)+

lemma bfs_invD:
  assumes "bfs_inv adj occ s visited q"
  shows "\<forall>v. visited v = Some None \<longleftrightarrow> v = s"
    and "\<forall>v u. visited v = Some (Some u) \<longrightarrow>
          u \<in> dom visited \<and> nbr adj occ u v \<and> hops adj occ s v = hops adj occ s u + 1"
    and "\<forall>v \<in> dom visited. \<exists>k. reach adj occ s k v"
    and "set q \<subseteq> dom visited"
    and "sorted (map (hops adj occ s) q)"
    and "q \<noteq> [] \<longrightarrow> hops adj occ s (last q) \<le> hops adj occ s (hd q) + 1"
    and "\<forall>v \<in> dom visited. v \<notin> set q \<longrightarrow> (\<forall>w. nbr adj occ v w \<longrightarrow> w \<in> dom visited)"
    and "q \<noteq> [] \<longrightarrow>
        (\<forall>w k. reach adj occ s k w \<and> hops adj occ s w \<le> hops adj occ s (hd q) \<longrightarrow>
           w \<in> dom visited)"
  using assms unfolding bfs_inv_def by - (elim conjE, assumption)+

lemma bfs_inv_discover:
  assumes inv: "bfs_inv adj occ s visited (c # queue)"
    and nb: "nbr adj occ c n" and fresh: "visited n = None"
  shows "bfs_inv adj occ s (visited(n \<mapsto> Some c)) (c # queue @ [n])"
proof -
  let ?h = "hops adj occ s"
  let ?v = "visited(n \<mapsto> Some c)"
  note d = bfs_invD [OF inv]
  note i0 = d(1) and i1 = d(2) and i2 = d(3) and i3 = d(4) and i4 = d(5) and i6 = d(7)
  from d(6) have i5: "?h (last (c # queue)) \<le> ?h c + 1" by simp
  from d(8) have i7: "\<forall>w k. reach adj occ s k w \<and> ?h w \<le> ?h c \<longrightarrow> w \<in> dom visited"
    by simp
  from i3 have cd: "c \<in> dom visited" by simp
  with i2 obtain k where kc: "reach adj occ s k c" by blast
  from kc nb have rn: "reach adj occ s (Suc k) n" by (rule reach_Suc)
  from fresh have nd: "n \<notin> dom visited" by (simp add: domIff)
  have "\<not> ?h n \<le> ?h c"
    using i7 rn nd by blast
  with hops_nbr [OF kc nb] have hn: "?h n = ?h c + 1" by simp
  from i0 have vs: "visited s = Some None" by blast
  with fresh have ns: "n \<noteq> s" by auto
  have j0: "\<forall>v. ?v v = Some None \<longleftrightarrow> v = s"
  proof
    fix v
    show "?v v = Some None \<longleftrightarrow> v = s"
    proof (cases "v = n")
      case True
      with ns show ?thesis by simp
    next
      case False
      then have "?v v = visited v" by simp
      with i0 show ?thesis by simp
    qed
  qed
  have j1: "\<forall>v u. ?v v = Some (Some u) \<longrightarrow>
          u \<in> dom ?v \<and> nbr adj occ u v \<and> ?h v = ?h u + 1"
  proof (intro allI impI)
    fix v u assume a: "?v v = Some (Some u)"
    show "u \<in> dom ?v \<and> nbr adj occ u v \<and> ?h v = ?h u + 1"
    proof (cases "v = n")
      case True
      with a have "u = c" by simp
      with True nb hn cd show ?thesis by simp
    next
      case False
      with a have "visited v = Some (Some u)" by simp
      with i1 have "u \<in> dom visited \<and> nbr adj occ u v \<and> ?h v = ?h u + 1" by blast
      then show ?thesis by simp
    qed
  qed
  have j2: "\<forall>v \<in> dom ?v. \<exists>k. reach adj occ s k v"
    using i2 rn by auto
  have j3: "set (c # queue @ [n]) \<subseteq> dom ?v"
    using i3 by auto
  have le: "\<forall>x \<in> set (c # queue). ?h x \<le> ?h n"
  proof
    fix x assume "x \<in> set (c # queue)"
    with i4 have "?h x \<le> ?h (last (c # queue))" by (rule sorted_hops_le_last)
    with i5 hn show "?h x \<le> ?h n" by simp
  qed
  have j4: "sorted (map ?h (c # queue @ [n]))"
  proof -
    have "sorted (map ?h (c # queue) @ [?h n])"
      using i4 le by (subst sorted_append) auto
    then show ?thesis by simp
  qed
  have j5: "c # queue @ [n] \<noteq> [] \<longrightarrow>
      ?h (last (c # queue @ [n])) \<le> ?h (hd (c # queue @ [n])) + 1"
    using hn by simp
  have j6: "\<forall>v \<in> dom ?v. v \<notin> set (c # queue @ [n]) \<longrightarrow>
               (\<forall>w. nbr adj occ v w \<longrightarrow> w \<in> dom ?v)"
  proof (intro ballI impI allI)
    fix v w assume "v \<in> dom ?v" "v \<notin> set (c # queue @ [n])" "nbr adj occ v w"
    then have "v \<in> dom visited" "v \<notin> set (c # queue)" "nbr adj occ v w" by auto
    with i6 have "w \<in> dom visited" by blast
    then show "w \<in> dom ?v" by simp
  qed
  have j7: "c # queue @ [n] \<noteq> [] \<longrightarrow>
      (\<forall>w k. reach adj occ s k w \<and> ?h w \<le> ?h (hd (c # queue @ [n])) \<longrightarrow> w \<in> dom ?v)"
  proof (intro impI allI)
    fix w k assume "reach adj occ s k w \<and> ?h w \<le> ?h (hd (c # queue @ [n]))"
    then have "reach adj occ s k w \<and> ?h w \<le> ?h c" by simp
    with i7 have "w \<in> dom visited" by blast
    then show "w \<in> dom ?v" by simp
  qed
  from j0 j1 j2 j3 j4 j5 j6 j7 show ?thesis
    by (rule bfs_invI)
qed

lemma bfs_inv_dequeue:
  assumes inv: "bfs_inv adj occ s visited (c # queue)"
    and closed: "\<forall>w. nbr adj occ c w \<longrightarrow> w \<in> dom visited"
  shows "bfs_inv adj occ s visited queue"
proof -
  let ?h = "hops adj occ s"
  note d = bfs_invD [OF inv]
  note i0 = d(1) and i1 = d(2) and i2 = d(3) and i3 = d(4) and i4 = d(5) and i6 = d(7)
  from d(6) have i5: "?h (last (c # queue)) \<le> ?h c + 1" by simp
  from d(8) have i7: "\<forall>w k. reach adj occ s k w \<and> ?h w \<le> ?h c \<longrightarrow> w \<in> dom visited"
    by simp
  have j3: "set queue \<subseteq> dom visited" using i3 by simp
  have j4: "sorted (map ?h queue)" using i4 by simp
  have ge: "\<forall>x \<in> set queue. ?h c \<le> ?h x" using i4 by simp
  have j5: "queue \<noteq> [] \<longrightarrow> ?h (last queue) \<le> ?h (hd queue) + 1"
  proof
    assume ne: "queue \<noteq> []"
    then have "hd queue \<in> set queue" by simp
    with ge have "?h c \<le> ?h (hd queue)" by blast
    with i5 ne show "?h (last queue) \<le> ?h (hd queue) + 1" by simp
  qed
  have j6: "\<forall>v \<in> dom visited. v \<notin> set queue \<longrightarrow>
               (\<forall>w. nbr adj occ v w \<longrightarrow> w \<in> dom visited)"
    using i6 closed by auto
  have j7: "queue \<noteq> [] \<longrightarrow>
        (\<forall>w k. reach adj occ s k w \<and> ?h w \<le> ?h (hd queue) \<longrightarrow> w \<in> dom visited)"
  proof (intro impI allI)
    fix w k
    assume ne: "queue \<noteq> []" and w: "reach adj occ s k w \<and> ?h w \<le> ?h (hd queue)"
    from ne have hq: "hd queue \<in> set queue" by simp
    have up: "?h (hd queue) \<le> ?h c + 1"
    proof -
      from j4 hq have "?h (hd queue) \<le> ?h (last queue)" by (rule sorted_hops_le_last)
      with i5 ne show ?thesis by simp
    qed
    show "w \<in> dom visited"
    proof (cases "?h w \<le> ?h c")
      case True
      with i7 w show ?thesis by blast
    next
      case False
      with w up have hw: "?h w = ?h c + 1" and hq2: "?h (hd queue) = ?h c + 1" by simp_all
      from hw have "w \<noteq> s" by (auto simp: hops_start)
      with w hops_pred obtain u j where u: "reach adj occ s j u" "nbr adj occ u w"
        "?h w = ?h u + 1" by blast
      with hw have hu: "?h u = ?h c" by simp
      with i7 u(1) have ud: "u \<in> dom visited" by auto
      show ?thesis
      proof (cases "u = c")
        case True
        with closed u(2) show ?thesis by blast
      next
        case False
        have "u \<notin> set queue"
        proof
          assume "u \<in> set queue"
          with j4 have "?h (hd queue) \<le> ?h u" by (rule sorted_hops_hd_le)
          with hq2 hu show False by simp
        qed
        with False have "u \<notin> set (c # queue)" by simp
        with i6 ud u(2) show ?thesis by blast
      qed
    qed
  qed
  from i0 i1 i2 j3 j4 j5 j6 j7 show ?thesis
    by (rule bfs_invI)
qed

lemma bfs_inv_tree:
  assumes inv: "bfs_inv adj occ s visited q"
  shows "v \<in> dom visited \<Longrightarrow>
     \<exists>p. tree_path visited v p \<and> hd p = v \<and> last p = s
        \<and> successively (\<lambda>x y. nbr adj occ y x) p \<and> length p = hops adj occ s v + 1"
proof (induction "hops adj occ s v" arbitrary: v rule: less_induct)
  case less
  note d = bfs_invD [OF inv]
  from less.prems obtain par where par: "visited v = Some par" by auto
  show ?case
  proof (cases par)
    case None
    with par d(1) have vs: "v = s" by blast
    from par None have "tree_path visited v [v]" by (simp add: tree_root)
    with vs show ?thesis by (auto simp: hops_start)
  next
    case (Some u)
    with par d(2) have u: "u \<in> dom visited" "nbr adj occ u v"
      "hops adj occ s v = hops adj occ s u + 1" by blast+
    from u(3) have "hops adj occ s u < hops adj occ s v" by simp
    from less.hyps [OF this u(1)] obtain p where p: "tree_path visited u p" "hd p = u"
      "last p = s" "successively (\<lambda>x y. nbr adj occ y x) p" "length p = hops adj occ s u + 1"
      by blast
    from p(5) have ne: "p \<noteq> []" by auto
    from par Some p(1) have "tree_path visited v (v # p)" by (simp add: tree_step)
    moreover have "successively (\<lambda>x y. nbr adj occ y x) (v # p)"
      using p(2,4) u(2) ne by (simp add: successively_Cons)
    ultimately show ?thesis using p(3,5) u(3) ne by auto
  qed
qed

lemma bfs_inv_found:
  assumes inv: "bfs_inv adj occ s visited q" and v: "v \<in> dom visited"
  shows "\<exists>p. reconstruct visited (Some v) [] = Some (Inr p) \<and> shortest_walk adj occ s v (rev p)"
proof -
  from bfs_inv_tree [OF inv v] obtain p where p: "tree_path visited v p" "hd p = v"
    "last p = s" "successively (\<lambda>x y. nbr adj occ y x) p" "length p = hops adj occ s v + 1"
    by blast
  from p(5) have ne: "p \<noteq> []" by auto
  from reconstruct_tree_path [OF p(1), of "[]"]
  have "reconstruct visited (Some v) [] = Some (Inr p)" by simp
  moreover have "shortest_walk adj occ s v (rev p)"
    using p ne by (simp add: shortest_walk_def hd_rev last_rev)
  ultimately show ?thesis by blast
qed

lemma bfs_inv_exhausted:
  assumes inv: "bfs_inv adj occ s visited []"
  shows "reach adj occ s k w \<Longrightarrow> w \<in> dom visited"
proof (induction rule: reach.induct)
  case reach_0
  from bfs_invD(1) [OF inv] show ?case by blast
next
  case (reach_Suc k u v)
  with bfs_invD(7) [OF inv] show ?case by simp
qed

lemma scan_neighbors_inv:
  assumes "bfs_inv adj occ s visited (c # queue)" and "b \<notin> dom visited"
    and "\<forall>n \<in> set nbrs. \<exists>ns. map_of adj c = Some ns \<and> n \<in> set ns"
  shows "(\<forall>r. scan_neighbors c (Some b) occ visited queue nbrs = Found r \<longrightarrow>
            (\<exists>p. r = Some (Inr p) \<and> shortest_walk adj occ s b p))
       \<and> (\<forall>visited' queue'. scan_neighbors c (Some b) occ visited queue nbrs
              = Next visited' queue' \<longrightarrow>
            bfs_inv adj occ s visited' (c # queue') \<and> b \<notin> dom visited'
            \<and> dom visited \<subseteq> dom visited'
            \<and> (\<forall>n \<in> set nbrs. n \<notin> occ \<longrightarrow> n \<in> dom visited')
            \<and> set queue' \<subseteq> set queue \<union> set nbrs)"
  using assms
proof (induction nbrs arbitrary: visited queue)
  case Nil
  then show ?case by simp
next
  case (Cons n rest)
  from Cons.prems(3)
  have rest: "\<forall>n \<in> set rest. \<exists>ns. map_of adj c = Some ns \<and> n \<in> set ns"
    and n: "\<exists>ns. map_of adj c = Some ns \<and> n \<in> set ns"
    by simp_all
  from bfs_invD(4) [OF Cons.prems(1)] have cd: "c \<in> dom visited" by simp
  show ?case
  proof (cases "\<not> (n \<in> occ \<or> n = c) \<and> visited n = None")
    case False
    then have eq: "scan_neighbors c (Some b) occ visited queue (n # rest)
        = scan_neighbors c (Some b) occ visited queue rest"
      by auto
    from False cd have nd: "n \<notin> occ \<longrightarrow> n \<in> dom visited"
      by (auto simp: domIff)
    have ih: "(\<forall>r. scan_neighbors c (Some b) occ visited queue rest = Found r \<longrightarrow>
            (\<exists>p. r = Some (Inr p) \<and> shortest_walk adj occ s b p))
       \<and> (\<forall>visited' queue'. scan_neighbors c (Some b) occ visited queue rest
              = Next visited' queue' \<longrightarrow>
            bfs_inv adj occ s visited' (c # queue') \<and> b \<notin> dom visited'
            \<and> dom visited \<subseteq> dom visited'
            \<and> (\<forall>n \<in> set rest. n \<notin> occ \<longrightarrow> n \<in> dom visited')
            \<and> set queue' \<subseteq> set queue \<union> set rest)"
      by (rule Cons.IH [OF Cons.prems(1,2) rest])
    show ?thesis
      unfolding eq
    proof (intro conjI allI impI)
      fix r assume "scan_neighbors c (Some b) occ visited queue rest = Found r"
      with ih show "\<exists>p. r = Some (Inr p) \<and> shortest_walk adj occ s b p" by blast
    next
      fix visited' queue'
      assume "scan_neighbors c (Some b) occ visited queue rest = Next visited' queue'"
      with ih have r: "bfs_inv adj occ s visited' (c # queue')" "b \<notin> dom visited'"
        "dom visited \<subseteq> dom visited'" "\<forall>n \<in> set rest. n \<notin> occ \<longrightarrow> n \<in> dom visited'"
        "set queue' \<subseteq> set queue \<union> set rest"
        by blast+
      from r(1) show "bfs_inv adj occ s visited' (c # queue')" .
      from r(2) show "b \<notin> dom visited'" .
      from r(3) show "dom visited \<subseteq> dom visited'" .
      from r(3,4) nd show "\<forall>n \<in> set (n # rest). n \<notin> occ \<longrightarrow> n \<in> dom visited'" by auto
      from r(5) show "set queue' \<subseteq> set queue \<union> set (n # rest)" by auto
    qed
  next
    case True
    let ?v = "visited(n \<mapsto> Some c)"
    from True have fresh: "visited n = None" and nocc: "n \<notin> occ" and nc: "n \<noteq> c"
      by simp_all
    from n nocc have nb: "nbr adj occ c n"
      by (simp add: nbr_def)
    have inv': "bfs_inv adj occ s ?v (c # queue @ [n])"
      using Cons.prems(1) nb fresh by (rule bfs_inv_discover)
    show ?thesis
    proof (cases "n = b")
      case e: True
      have "n \<in> dom ?v" by simp
      from bfs_inv_found [OF inv' this] obtain p
        where p: "reconstruct ?v (Some n) [] = Some (Inr p)" "shortest_walk adj occ s n (rev p)"
        by blast
      from True e p(1) have "scan_neighbors c (Some b) occ visited queue (n # rest)
          = Found (Some (Inr (rev p)))"
        by simp
      with p(2) e show ?thesis by simp
    next
      case e: False
      with True have eq: "scan_neighbors c (Some b) occ visited queue (n # rest)
          = scan_neighbors c (Some b) occ ?v (queue @ [n]) rest"
        by simp
      from e Cons.prems(2) have bd: "b \<notin> dom ?v" by simp
      have inv'': "bfs_inv adj occ s ?v (c # (queue @ [n]))"
        using inv' by simp
      have ih: "(\<forall>r. scan_neighbors c (Some b) occ ?v (queue @ [n]) rest = Found r \<longrightarrow>
            (\<exists>p. r = Some (Inr p) \<and> shortest_walk adj occ s b p))
       \<and> (\<forall>visited' queue'. scan_neighbors c (Some b) occ ?v (queue @ [n]) rest
              = Next visited' queue' \<longrightarrow>
            bfs_inv adj occ s visited' (c # queue') \<and> b \<notin> dom visited'
            \<and> dom ?v \<subseteq> dom visited'
            \<and> (\<forall>n \<in> set rest. n \<notin> occ \<longrightarrow> n \<in> dom visited')
            \<and> set queue' \<subseteq> set (queue @ [n]) \<union> set rest)"
        by (rule Cons.IH [OF inv'' bd rest])
      have sub: "dom visited \<subseteq> dom ?v" "n \<in> dom ?v"
        by auto
      show ?thesis
        unfolding eq
      proof (intro conjI allI impI)
        fix r assume "scan_neighbors c (Some b) occ ?v (queue @ [n]) rest = Found r"
        with ih show "\<exists>p. r = Some (Inr p) \<and> shortest_walk adj occ s b p" by blast
      next
        fix visited' queue'
        assume "scan_neighbors c (Some b) occ ?v (queue @ [n]) rest = Next visited' queue'"
        with ih have r: "bfs_inv adj occ s visited' (c # queue')" "b \<notin> dom visited'"
          "dom ?v \<subseteq> dom visited'" "\<forall>n \<in> set rest. n \<notin> occ \<longrightarrow> n \<in> dom visited'"
          "set queue' \<subseteq> set (queue @ [n]) \<union> set rest"
          by blast+
        from r(1) show "bfs_inv adj occ s visited' (c # queue')" .
        from r(2) show "b \<notin> dom visited'" .
        from r(3) sub show "dom visited \<subseteq> dom visited'" by blast
        from r(3,4) sub show "\<forall>n \<in> set (n # rest). n \<notin> occ \<longrightarrow> n \<in> dom visited'" by auto
        from r(5) show "set queue' \<subseteq> set queue \<union> set (n # rest)" by auto
      qed
    qed
  qed
qed

lemma bfs_loop_inv:
  assumes closed: "\<forall>k ns. map_of adj k = Some ns \<longrightarrow> (\<forall>n \<in> set ns. map_of adj n \<noteq> None)"
  shows "bfs_inv adj occ s visited queue \<Longrightarrow> b \<notin> dom visited \<Longrightarrow>
     \<forall>x \<in> set queue. map_of adj x \<noteq> None \<Longrightarrow> end_v = Some b \<Longrightarrow>
     (\<exists>p. bfs_loop adj end_v occ visited queue = Some (Inr (Some p))
          \<and> shortest_walk adj occ s b p)
     \<or> (bfs_loop adj end_v occ visited queue = Some (Inr None)
          \<and> (\<forall>k. \<not> reach adj occ s k b))"
  using closed
proof (induction adj end_v occ visited queue rule: bfs_loop.induct)
  case (1 adj end_v occupied visited)
  from bfs_inv_exhausted [OF "1.prems"(1)] "1.prems"(2) show ?case by auto
next
  case (2 adj end_v occupied visited current queue)
  from "2.prems"(3) obtain nbrs where nbrs: "map_of adj current = Some nbrs" by auto
  have gen: "\<forall>n \<in> set nbrs. \<exists>ns. map_of adj current = Some ns \<and> n \<in> set ns"
    using nbrs by simp
  note sc = scan_neighbors_inv [OF "2.prems"(1,2) gen]
  show ?case
  proof (cases "scan_neighbors current end_v occupied visited queue nbrs")
    case (Found r)
    with sc "2.prems"(4) obtain p where "r = Some (Inr p)" "shortest_walk adj occupied s b p"
      by blast
    with nbrs Found show ?thesis by simp
  next
    case (Next visited' queue')
    with sc "2.prems"(4) have r: "bfs_inv adj occupied s visited' (current # queue')"
      "b \<notin> dom visited'" "\<forall>n \<in> set nbrs. n \<notin> occupied \<longrightarrow> n \<in> dom visited'"
      "set queue' \<subseteq> set queue \<union> set nbrs"
      by blast+
    have "\<forall>w. nbr adj occupied current w \<longrightarrow> w \<in> dom visited'"
      using r(3) nbrs by (auto simp: nbr_def)
    with r(1) have inv: "bfs_inv adj occupied s visited' queue'"
      by (rule bfs_inv_dequeue)
    have keys: "\<forall>x \<in> set queue'. map_of adj x \<noteq> None"
    proof
      fix x assume "x \<in> set queue'"
      with r(4) have "x \<in> set queue \<or> x \<in> set nbrs" by blast
      then show "map_of adj x \<noteq> None"
        using "2.prems"(3,5) nbrs by auto
    qed
    from "2.IH" [OF nbrs Next inv r(2) keys "2.prems"(4,5)] nbrs Next show ?thesis
      by simp
  qed
qed

lemma adj_append_Inr:
  assumes "adj_append adj k v = Inr adj'"
  shows "\<exists>ns. map_of adj k = Some ns \<and> map_of adj' = (map_of adj)(k \<mapsto> ns @ [v])"
  using assms by (auto simp: adj_append_def update_conv' split: option.splits)

lemma adj_append_edges:
  assumes "adj_append adj k v = Inr adj'"
  shows "has_edge adj' u w \<longleftrightarrow> has_edge adj u w \<or> (u = k \<and> w = v)"
    and "map_of adj' x \<noteq> None \<longleftrightarrow> map_of adj x \<noteq> None"
    and "map_of adj k \<noteq> None"
proof -
  from adj_append_Inr [OF assms] obtain ns where ns: "map_of adj k = Some ns"
    "map_of adj' = (map_of adj)(k \<mapsto> ns @ [v])" by blast
  show "has_edge adj' u w \<longleftrightarrow> has_edge adj u w \<or> (u = k \<and> w = v)"
    by (cases "u = k") (auto simp: has_edge_def ns)
  show "map_of adj' x \<noteq> None \<longleftrightarrow> map_of adj x \<noteq> None"
    by (cases "x = k") (auto simp: ns)
  show "map_of adj k \<noteq> None"
    by (simp add: ns)
qed

lemma lane_between_Nil: "\<not> lane_between [] u v"
  by (simp add: lane_between_def)

lemma lane_between_Cons:
  "lane_between ((a, b, props) # rest) u v \<longleftrightarrow>
     (a = u \<and> b = v) \<or> (a = v \<and> b = u) \<or> lane_between rest u v"
  by (simp add: lane_between_def)

lemma add_lanes_edges:
  "add_lanes adj ls = Inr adj' \<Longrightarrow>
     (\<forall>u w. has_edge adj' u w \<longleftrightarrow> has_edge adj u w \<or> lane_between ls u w)
   \<and> (\<forall>x. map_of adj' x \<noteq> None \<longleftrightarrow> map_of adj x \<noteq> None)
   \<and> (\<forall>u w. lane_between ls u w \<longrightarrow> map_of adj u \<noteq> None \<and> map_of adj w \<noteq> None)"
proof (induction adj ls rule: add_lanes.induct)
  case (1 adj)
  then show ?case by (simp add: lane_between_Nil)
next
  case (2 adj a b props rest)
  from "2.prems" obtain adj1 adj2 where s1: "adj_append adj a b = Inr adj1"
    and s2: "adj_append adj1 b a = Inr adj2" and s3: "add_lanes adj2 rest = Inr adj'"
    by (auto split: sum.splits)
  note e1 = adj_append_edges [OF s1] and e2 = adj_append_edges [OF s2]
  from "2.IH" [OF s1 s2 s3]
  have ih1: "\<forall>u w. has_edge adj' u w \<longleftrightarrow> has_edge adj2 u w \<or> lane_between rest u w"
    and ih2: "\<forall>x. map_of adj' x \<noteq> None \<longleftrightarrow> map_of adj2 x \<noteq> None"
    and ih3: "\<forall>u w. lane_between rest u w \<longrightarrow> map_of adj2 u \<noteq> None \<and> map_of adj2 w \<noteq> None"
    by blast+
  have k: "map_of adj2 x \<noteq> None \<longleftrightarrow> map_of adj x \<noteq> None" for x
    using e1(2) e2(2) by simp
  have ab: "map_of adj a \<noteq> None" "map_of adj b \<noteq> None"
    using e1(3) e2(3) e1(2) by simp_all
  have c1: "\<forall>u w. has_edge adj' u w \<longleftrightarrow>
      has_edge adj u w \<or> lane_between ((a, b, props) # rest) u w"
    using ih1 e1(1) e2(1) by (auto simp: lane_between_Cons)
  have c2: "\<forall>x. map_of adj' x \<noteq> None \<longleftrightarrow> map_of adj x \<noteq> None"
    using ih2 k by simp
  have c3: "\<forall>u w. lane_between ((a, b, props) # rest) u w \<longrightarrow>
      map_of adj u \<noteq> None \<and> map_of adj w \<noteq> None"
    using ih3 k ab by (auto simp: lane_between_Cons)
  from c1 c2 c3 show ?case by blast
qed

lemma map_of_initial_adjacency:
  "map_of (map (\<lambda>i. (int i, [])) [0..<n]) x = (if 0 \<le> x \<and> x < int n then Some [] else None)"
proof (induction n)
  case 0
  then show ?case by simp
next
  case (Suc n)
  then show ?case by (auto simp: map_of_append map_add_def split: option.splits)
qed

lemma NavGraph_init_adjacency:
  assumes "NavGraph_init vs ls = Inr g"
  shows "\<forall>u w. has_edge (adjacency_list g) u w \<longleftrightarrow> adjacent g u w"
    and "\<forall>x. map_of (adjacency_list g) x \<noteq> None \<longleftrightarrow> 0 \<le> x \<and> x < int (length vs)"
    and "\<forall>k ns. map_of (adjacency_list g) k = Some ns \<longrightarrow>
           (\<forall>n \<in> set ns. map_of (adjacency_list g) n \<noteq> None)"
proof -
  let ?init = "map (\<lambda>i. (int i, [] :: int list)) [0..<length vs]"
  from assms have al: "add_lanes ?init ls = Inr (adjacency_list g)" and lg: "lanes g = ls"
    by (auto simp: NavGraph_init_def build_adjacency_list_def split: sum.splits)
  note e = add_lanes_edges [OF al]
  note e1 = e [THEN conjunct1] and e2 = e [THEN conjunct2, THEN conjunct1]
    and e3 = e [THEN conjunct2, THEN conjunct2]
  have noedge: "\<not> has_edge ?init u w" for u w
    by (simp add: has_edge_def map_of_initial_adjacency)
  show one: "\<forall>u w. has_edge (adjacency_list g) u w \<longleftrightarrow> adjacent g u w"
    using e noedge by (simp add: adjacent_def lane_between_def lg)
  show two: "\<forall>x. map_of (adjacency_list g) x \<noteq> None \<longleftrightarrow> 0 \<le> x \<and> x < int (length vs)"
    using e by (simp add: map_of_initial_adjacency)
  show "\<forall>k ns. map_of (adjacency_list g) k = Some ns \<longrightarrow>
           (\<forall>n \<in> set ns. map_of (adjacency_list g) n \<noteq> None)"
  proof (intro allI impI ballI)
    fix k ns n assume "map_of (adjacency_list g) k = Some ns" "n \<in> set ns"
    then have "has_edge (adjacency_list g) k n" by (auto simp: has_edge_def)
    with e1 noedge have lb: "lane_between ls k n" by simp
    from e3 [rule_format, OF lb] have "map_of ?init n \<noteq> None" by simp
    with e2 show "map_of (adjacency_list g) n \<noteq> None" by simp
  qed
qed

lemma walk_reach:
  "successively (nbr adj occ) (xs @ [x]) \<Longrightarrow> hd (xs @ [x]) = s \<Longrightarrow>
     reach adj occ s (length xs) x"
proof (induction xs arbitrary: x rule: rev_induct)
  case Nil
  then show ?case by (simp add: reach_0)
next
  case (snoc y ys)
  from snoc.prems(1) have "successively (nbr adj occ) (ys @ [y])" and "nbr adj occ y x"
    by (simp_all add: successively_append_iff)
  moreover from snoc.prems(2) have "hd (ys @ [y]) = s"
    by (cases ys) simp_all
  ultimately show ?case
    using snoc.IH [of y] by (auto intro: reach_Suc)
qed

lemma find_shortest_path_spec:
  assumes closed: "\<forall>k ns. map_of (adjacency_list g) k = Some ns \<longrightarrow>
           (\<forall>n \<in> set ns. map_of (adjacency_list g) n \<noteq> None)"
    and start: "map_of (adjacency_list g) start \<noteq> None" and ne: "start \<noteq> b"
  shows "(\<exists>p. find_shortest_path g start (Some b) occupied = Some (Inr (Some p))
            \<and> shortest_walk (adjacency_list g) (set occupied) start b p)
       \<or> (find_shortest_path g start (Some b) occupied = Some (Inr None)
            \<and> (\<forall>k. \<not> reach (adjacency_list g) (set occupied) start k b))"
proof -
  have inv: "bfs_inv (adjacency_list g) (set occupied) start [start \<mapsto> None] [start]"
    by (rule bfs_inv_init)
  have b: "b \<notin> dom [start \<mapsto> None]"
    using ne by simp
  have q: "\<forall>x \<in> set [start]. map_of (adjacency_list g) x \<noteq> None"
    using start by simp
  from bfs_loop_inv [OF closed inv b q refl] ne show ?thesis
    by (simp add: find_shortest_path_def)
qed

lemma line_graph_init:
  "NavGraph_init [\<lparr>vx = 0, vy = 0\<rparr>, \<lparr>vx = 1, vy = 0\<rparr>, \<lparr>vx = 2, vy = 0\<rparr>]
     [(0, 1, None), (1, 2, None)] = Inr line_graph"
  by (simp add: NavGraph_init_def build_adjacency_list_def adj_append_def line_graph_def upt_rec)

lemma isolated_graph_init:
  "NavGraph_init [\<lparr>vx = 0, vy = 0\<rparr>, \<lparr>vx = 1, vy = 0\<rparr>] [] = Inr isolated_graph"
  by (simp add: NavGraph_init_def build_adjacency_list_def isolated_graph_def upt_rec)

lemma nbr_adjacent:
  assumes "NavGraph_init vs ls = Inr g"
  shows "nbr (adjacency_list g) occ u v \<longleftrightarrow> v \<notin> occ \<and> adjacent g u v"
  using NavGraph_init_adjacency(1) [OF assms] by (simp add: nbr_def has_edge_def)

lemma route_hops:
  assumes "successively (nbr adj occ) w" "w \<noteq> []" "hd w = s" "last w = b"
  shows "reach adj occ s (length w - 1) b"
proof -
  from assms(2) obtain xs x where w: "w = xs @ [x]"
    by (cases w rule: rev_cases) auto
  with assms(4) have "x = b" by simp
  with walk_reach [of adj occ xs x s] assms(1,3) w show ?thesis by simp
qed

text \<open>
  Claim C3 (BFS optimality). On a graph built by the constructor, for a start vertex \<open>a\<close>
  in range and no occupied vertex: if some route leads from \<open>a\<close> to \<open>b\<close>, the search returns
  a route from \<open>a\<close> to \<open>b\<close> that is no longer than any route from \<open>a\<close> to \<open>b\<close>, so its number
  of edges is the unweighted distance; if no route leads from \<open>a\<close> to \<open>b\<close>, it returns none.
\<close>

theorem bfs_optimality:
  assumes "NavGraph_init vs ls = Inr g" and "0 \<le> a" and "a < int (length vs)"
  shows "(\<forall>w. is_route g a b w \<longrightarrow>
            (\<exists>p. find_shortest_path g a (Some b) [] = Some (Inr (Some p))
                \<and> is_route g a b p \<and> length p \<le> length w))
       \<and> ((\<forall>w. \<not> is_route g a b w) \<longrightarrow>
            find_shortest_path g a (Some b) [] = Some (Inr None))"
proof (cases "a = b")
  case True
  have r: "is_route g a a [a]"
    by (simp add: is_route_def)
  have "find_shortest_path g a (Some a) [] = Some (Inr (Some [a]))"
    by (simp add: find_shortest_path_def)
  moreover have "length [a] \<le> length w" if "is_route g a a w" for w
    using that by (cases w) (simp_all add: is_route_def)
  ultimately show ?thesis
    using True r by blast
next
  case False
  let ?adj = "adjacency_list g"
  note wf = NavGraph_init_adjacency [OF assms(1)]
  from wf(2) assms(2,3) have st: "map_of ?adj a \<noteq> None" by simp
  have nb: "nbr ?adj {} = adjacent g"
    by (intro ext) (simp add: nbr_adjacent [OF assms(1)])
  have reach_route: "reach ?adj {} a (length w - 1) b" if "is_route g a b w" for w
    using that by (intro route_hops) (simp_all add: is_route_def nb)
  from find_shortest_path_spec [OF wf(3) st False, of "[]"]
  have "(\<exists>p. find_shortest_path g a (Some b) [] = Some (Inr (Some p))
              \<and> shortest_walk ?adj {} a b p)
      \<or> (find_shortest_path g a (Some b) [] = Some (Inr None)
              \<and> (\<forall>k. \<not> reach ?adj {} a k b))"
    by simp
  then show ?thesis
  proof
    assume "\<exists>p. find_shortest_path g a (Some b) [] = Some (Inr (Some p))
              \<and> shortest_walk ?adj {} a b p"
    then obtain p where p: "find_shortest_path g a (Some b) [] = Some (Inr (Some p))"
      "shortest_walk ?adj {} a b p" by blast
    from p(2) have route: "is_route g a b p"
      and len: "length p = hops ?adj {} a b + 1"
      by (simp_all add: shortest_walk_def is_route_def nb)
    have "length p \<le> length w" if "is_route g a b w" for w
    proof -
      from hops_le [OF reach_route [OF that]] len have "length p \<le> length w - 1 + 1"
        by simp
      moreover from that have "w \<noteq> []" by (simp add: is_route_def)
      ultimately show ?thesis by (cases w) simp_all
    qed
    with p(1) route show ?thesis by blast
  next
    assume n: "find_shortest_path g a (Some b) [] = Some (Inr None)
              \<and> (\<forall>k. \<not> reach ?adj {} a k b)"
    with reach_route have "\<forall>w. \<not> is_route g a b w" by blast
    with n show ?thesis by blast
  qed
qed

theorem bfs_optimality_witness:
  "is_route line_graph 0 2 [0, 1, 2]
   \<and> (\<exists>p. find_shortest_path line_graph 0 (Some 2) [] = Some (Inr (Some p))
          \<and> is_route line_graph 0 2 p \<and> length p \<le> 3)
   \<and> find_shortest_path isolated_graph 0 (Some 1) [] = Some (Inr None)"
proof -
  have r: "is_route line_graph 0 2 [0, 1, 2]"
    by (simp add: is_route_def adjacent_def line_graph_def)
  have h: "(0::int) \<le> 0" "(0::int) < int (length [\<lparr>vx = 0, vy = 0\<rparr>, \<lparr>vx = 1, vy = 0\<rparr>, \<lparr>vx = 2, vy = 0\<rparr>])"
    by simp_all
  from bfs_optimality [OF line_graph_init h, of 2] r
  have a: "\<exists>p. find_shortest_path line_graph 0 (Some 2) [] = Some (Inr (Some p))
          \<and> is_route line_graph 0 2 p \<and> length p \<le> 3"
    by fastforce
  have none: "\<not> is_route isolated_graph 0 1 w" for w
  proof (cases w)
    case Nil
    then show ?thesis by (simp add: is_route_def)
  next
    case (Cons x xs)
    then show ?thesis
      by (cases xs) (simp_all add: is_route_def adjacent_def isolated_graph_def)
  qed
  have h': "(0::int) \<le> 0" "(0::int) < int (length [\<lparr>vx = 0, vy = 0\<rparr>, \<lparr>vx = 1, vy = 0\<rparr>])"
    by simp_all
  from bfs_optimality [OF isolated_graph_init h', of 1] none
  have b: "find_shortest_path isolated_graph 0 (Some 1) [] = Some (Inr None)"
    by blast
  from r a b show ?thesis by blast
qed

text \<open>
  Claim C2 (occupied destination is unreachable), as stated for every pair of vertices:
  it fails when \<open>start = end\<close>, where the search returns \<open>[start]\<close> before it looks at the
  occupied set.
\<close>

theorem occupied_destination_counterexample:
  "(0::int) \<in> set [0]
   \<and> find_shortest_path line_graph 0 (Some 0) [0] = Some (Inr (Some [0]))"
  by (simp add: find_shortest_path_def)

text \<open>
  Claim C2, amended: on a graph built by the constructor, for a start vertex in range and
  a destination different from it, the search returns none whenever the destination is
  in the occupied list, also when the two vertices are adjacent.
\<close>

theorem occupied_destination_unreachable:
  assumes "NavGraph_init vs ls = Inr g" and "0 \<le> start" and "start < int (length vs)"
    and "end_v \<in> set occupied" and "start \<noteq> end_v"
  shows "find_shortest_path g start (Some end_v) occupied = Some (Inr None)"
proof -
  let ?adj = "adjacency_list g"
  note wf = NavGraph_init_adjacency [OF assms(1)]
  from wf(2) assms(2,3) have st: "map_of ?adj start \<noteq> None" by simp
  have unreachable: "\<not> reach ?adj (set occupied) start k end_v" for k
  proof (cases k)
    case 0
    with assms(5) show ?thesis by (simp add: reach_0_iff)
  next
    case (Suc m)
    with assms(4) show ?thesis by (auto simp: reach_Suc_iff nbr_def)
  qed
  from find_shortest_path_spec [OF wf(3) st assms(5), of occupied]
  show ?thesis
  proof
    assume "\<exists>p. find_shortest_path g start (Some end_v) occupied = Some (Inr (Some p))
              \<and> shortest_walk ?adj (set occupied) start end_v p"
    then obtain p where "shortest_walk ?adj (set occupied) start end_v p" by blast
    then have "reach ?adj (set occupied) start (length p - 1) end_v"
      by (intro route_hops) (simp_all add: shortest_walk_def)
    with unreachable show ?thesis by blast
  qed simp
qed

theorem occupied_destination_unreachable_witness:
  "adjacent line_graph 0 1 \<and> (1::int) \<in> set [0, 1]
   \<and> find_shortest_path line_graph 0 (Some 1) [0, 1] = Some (Inr None)"
proof -
  have h: "(0::int) \<le> 0" "(0::int) < int (length [\<lparr>vx = 0, vy = 0\<rparr>, \<lparr>vx = 1, vy = 0\<rparr>, \<lparr>vx = 2, vy = 0\<rparr>])"
    "(1::int) \<in> set [0, 1]" "(0::int) \<noteq> 1"
    by simp_all
  from occupied_destination_unreachable [OF line_graph_init h]
  show ?thesis by (simp add: adjacent_def line_graph_def)
qed

section \<open>Scenarios on the line graph\<close>

lemmas scenario_defs = line_agent_def line_fleet_def line_graph_def FleetManager_init_def
  TrafficManager_init_def Robot_init_def spawn_robot_def assign_task_def update_robots_def
  process_movement_def can_move_to_def handle_vertex_reached_def check_waiting_robot_def
  update_position_def distance_to_next_def get_vertex_position_def get_lane_speed_limit_def
  request_vertex_def request_lane_def release_vertex_def release_lane_def normalize_lane_def
  get_occupied_vertices_def robot_assign_task_def find_shortest_path_def reconstruct.simps
  Let_def

lemma line_spawn:
  "spawn_robot (FleetManager_init line_graph) 0
     = (Some (Robot_init 0 0), line_fleet [(0, Robot_init 0 0)] [(0, 0)])"
  by (simp add: scenario_defs)

lemma line_assign_far:
  "assign_task (line_fleet [(0, Robot_init 0 0)] [(0, 0)]) 0 2
     = Some (Inr (True, line_fleet [(0, line_agent (Some 2) 0 None [0, 1, 2] MOVING)] []))"
  by (simp add: scenario_defs)

lemma line_tick_1:
  "update_robots (line_fleet [(0, line_agent (Some 2) 0 None [0, 1, 2] MOVING)] []) 1
     = Some (Inr (line_fleet [(0, line_agent (Some 2) 0 (Some 0) [1, 2] MOVING)] []))"
  by (simp add: scenario_defs)

lemma line_tick_2:
  "update_robots (line_fleet [(0, line_agent (Some 2) 0 (Some 0) [1, 2] MOVING)] []) 1
     = Some (Inr (line_fleet [(0, line_agent (Some 2) 1 (Some 0) [2] MOVING)] [(1, 0)]))"
  by (simp add: scenario_defs)

lemma line_tick_3:
  "update_robots (line_fleet [(0, line_agent (Some 2) 1 (Some 0) [2] MOVING)] [(1, 0)]) 1
     = Some (Inr (line_fleet [(0, line_agent (Some 2) 2 (Some 1) [] TASK_COMPLETE)] []))"
  by (simp add: scenario_defs)

lemma line_assign_near:
  "assign_task (line_fleet [(0, Robot_init 0 0)] [(0, 0)]) 0 1
     = Some (Inr (True, line_fleet [(0, line_agent (Some 1) 0 None [0, 1] MOVING)] []))"
  by (simp add: scenario_defs)

lemma line_spawn_second:
  "spawn_robot (line_fleet [(0, line_agent (Some 1) 0 None [0, 1] MOVING)] []) 0
     = (Some (Robot_init 1 0),
        line_fleet [(0, line_agent (Some 1) 0 None [0, 1] MOVING), (1, Robot_init 1 0)]
          [(0, 1)])"
  by (simp add: scenario_defs)

lemma line_assign_here:
  "assign_task
     (line_fleet [(0, line_agent (Some 1) 0 None [0, 1] MOVING), (1, Robot_init 1 0)] [(0, 1)])
     0 0
   = Some (Inr (True,
       line_fleet [(0, line_agent (Some 0) 0 None [0] MOVING), (1, Robot_init 1 0)] [(0, 1)]))"
  by (simp add: scenario_defs)

lemma line_tick_here:
  "update_robots
     (line_fleet [(0, line_agent (Some 0) 0 None [0] MOVING), (1, Robot_init 1 0)] [(0, 1)]) 1
   = Some (Inr
       (line_fleet [(0, line_agent (Some 0) 0 (Some 0) [] TASK_COMPLETE), (1, Robot_init 1 0)]
          [(0, 1)]))"
  by (simp add: scenario_defs)

text \<open>
  Claim C5 (end-to-end scenario), as stated: after the first tick agent A is at vertex 1.
  On the code the path \<open>[0, 1, 2]\<close> starts with A's own vertex, and the first tick consumes
  that head: A is still at vertex 0.
\<close>

theorem end_to_end_counterexample:
  "spawn_robot (FleetManager_init line_graph) 0
     = (Some (Robot_init 0 0), line_fleet [(0, Robot_init 0 0)] [(0, 0)])
   \<and> assign_task (line_fleet [(0, Robot_init 0 0)] [(0, 0)]) 0 2
     = Some (Inr (True, line_fleet [(0, line_agent (Some 2) 0 None [0, 1, 2] MOVING)] []))
   \<and> update_robots (line_fleet [(0, line_agent (Some 2) 0 None [0, 1, 2] MOVING)] []) 1
     = Some (Inr (line_fleet [(0, line_agent (Some 2) 0 (Some 0) [1, 2] MOVING)] []))
   \<and> current_vertex (line_agent (Some 2) 0 (Some 0) [1, 2] MOVING) \<noteq> 1"
  using line_spawn line_assign_far line_tick_1 by (simp add: line_agent_def)

text \<open>
  Claim C5, amended: on the line graph with agent A spawned at vertex 0 and assigned
  destination 2, the path is \<open>[0, 1, 2]\<close> and the assignment releases vertex 0. A first
  tick of \<open>delta_time = 1\<close> consumes the head of the path and leaves A at vertex 0 with
  previous vertex 0 and vertex 0 unheld; a second leaves A at vertex 1 with previous
  vertex 0, holding vertex 1; a third leaves A at vertex 2 with status TASK\_COMPLETE,
  vertex 1 released and vertex 2 not held, the ledger being empty.
\<close>

theorem end_to_end_scenario:
  "spawn_robot (FleetManager_init line_graph) 0
     = (Some (Robot_init 0 0), line_fleet [(0, Robot_init 0 0)] [(0, 0)])
   \<and> assign_task (line_fleet [(0, Robot_init 0 0)] [(0, 0)]) 0 2
     = Some (Inr (True, line_fleet [(0, line_agent (Some 2) 0 None [0, 1, 2] MOVING)] []))
   \<and> update_robots (line_fleet [(0, line_agent (Some 2) 0 None [0, 1, 2] MOVING)] []) 1
     = Some (Inr (line_fleet [(0, line_agent (Some 2) 0 (Some 0) [1, 2] MOVING)] []))
   \<and> update_robots (line_fleet [(0, line_agent (Some 2) 0 (Some 0) [1, 2] MOVING)] []) 1
     = Some (Inr (line_fleet [(0, line_agent (Some 2) 1 (Some 0) [2] MOVING)] [(1, 0)]))
   \<and> holds_vertex
       (traffic_manager (line_fleet [(0, line_agent (Some 2) 1 (Some 0) [2] MOVING)] [(1, 0)]))
       0 1
   \<and> update_robots (line_fleet [(0, line_agent (Some 2) 1 (Some 0) [2] MOVING)] [(1, 0)]) 1
     = Some (Inr (line_fleet [(0, line_agent (Some 2) 2 (Some 1) [] TASK_COMPLETE)] []))
   \<and> get_occupied_vertices
       (traffic_manager (line_fleet [(0, line_agent (Some 2) 2 (Some 1) [] TASK_COMPLETE)] []))
     = []"
  using line_spawn line_assign_far line_tick_1 line_tick_2 line_tick_3
  by (simp add: line_fleet_def holds_vertex_def get_occupied_vertices_def)

section \<open>Completion of a task\<close>

lemma update_position_result:
  assumes "update_position g r delta_time = Inr (r1, b)"
  shows "robot_id r1 = robot_id r \<and> path r1 = path r \<and> status r1 = status r
       \<and> destination_vertex r1 = destination_vertex r
       \<and> ((current_vertex r1 = current_vertex r \<and> previous_vertex r1 = previous_vertex r)
          \<or> (current_vertex r1 = hd (path r)
              \<and> previous_vertex r1 = Some (current_vertex r)))"
  using assms unfolding update_position_unfold [OF refl]
  by (auto split: if_splits sum.splits)

lemma vertex_map_request_vertex:
  "request_vertex tm a v = (True, tm1) \<Longrightarrow>
     map_of (vertex_occupancy tm1) = (map_of (vertex_occupancy tm))(v \<mapsto> a)
     \<and> lane_occupancy tm1 = lane_occupancy tm"
  by (auto simp: request_vertex_def update_conv' split: if_splits)

lemma vertex_map_request_lane:
  "request_lane tm a u v = (ok, tm1) \<Longrightarrow> vertex_occupancy tm1 = vertex_occupancy tm"
  by (auto simp: request_lane_def Let_def split: if_splits)

lemma vertex_map_release_lane:
  "vertex_occupancy (release_lane tm a u v) = vertex_occupancy tm"
  by (simp add: release_lane_def Let_def)

lemma vertex_map_release_vertex:
  "map_of (vertex_occupancy (release_vertex tm a v)) =
     (if map_of (vertex_occupancy tm) v = Some a
      then (map_of (vertex_occupancy tm))(v := None)
      else map_of (vertex_occupancy tm))"
  by (auto simp: release_vertex_def delete_conv' key_in_alist_iff)

lemma release_vertex_not_held:
  assumes "ledger_distinct tm"
  shows "\<not> holds_vertex (release_vertex tm a v) a v"
proof -
  from assms have "ledger_distinct (release_vertex tm a v)"
    by (rule ledger_distinct_release_vertex)
  then show ?thesis
    by (simp add: holds_vertex_map_of vertex_map_release_vertex)
qed

lemma ledger_distinct_can_move_to:
  assumes "ledger_distinct tm" "can_move_to tm r n = (ok, tm1)"
  shows "ledger_distinct tm1"
proof (cases "n = current_vertex r")
  case True
  with assms show ?thesis by (simp add: can_move_to_def)
next
  case False
  let ?rv = "request_vertex tm (robot_id r) n"
  let ?rl = "request_lane (snd ?rv) (robot_id r) (current_vertex r) n"
  from assms(1) have d1: "ledger_distinct (snd ?rv)"
    by (rule ledger_distinct_request_vertex)
  then have d2: "ledger_distinct (snd ?rl)"
    by (rule ledger_distinct_request_lane)
  from assms(2) False have "tm1 = snd ?rv \<or> tm1 = snd ?rl"
    by (auto simp: can_move_to_def Let_def split: prod.splits if_splits)
  with d1 d2 show ?thesis by blast
qed

lemma can_move_to_granted:
  assumes "can_move_to tm r n = (True, tm1)" "n \<noteq> current_vertex r"
  shows "map_of (vertex_occupancy tm1) n = Some (robot_id r)"
proof -
  from assms obtain tmv where v: "request_vertex tm (robot_id r) n = (True, tmv)"
    and l: "request_lane tmv (robot_id r) (current_vertex r) n = (True, tm1)"
    by (auto simp: can_move_to_def Let_def split: prod.splits if_splits)
  from vertex_map_request_vertex [OF v] vertex_map_request_lane [OF l]
  show ?thesis by simp
qed

lemma can_move_to_denied:
  "can_move_to tm r n = (False, tm1) \<Longrightarrow> n \<noteq> current_vertex r"
  by (auto simp: can_move_to_def)

text \<open>
  Claim C4 (completion releases resources), as stated: after the step that empties the
  path, the agent's final vertex is not in the occupied vertices. It fails in the stay
  case: agent 0 is assigned a task, which releases its vertex 0; agent 1 is spawned at
  vertex 0; agent 0 is reassigned to its own vertex 0. The tick completes agent 0's task
  at vertex 0, which agent 1 still holds.
\<close>

theorem completion_counterexample:
  "spawn_robot (FleetManager_init line_graph) 0
     = (Some (Robot_init 0 0), line_fleet [(0, Robot_init 0 0)] [(0, 0)])
   \<and> assign_task (line_fleet [(0, Robot_init 0 0)] [(0, 0)]) 0 1
     = Some (Inr (True, line_fleet [(0, line_agent (Some 1) 0 None [0, 1] MOVING)] []))
   \<and> spawn_robot (line_fleet [(0, line_agent (Some 1) 0 None [0, 1] MOVING)] []) 0
     = (Some (Robot_init 1 0),
        line_fleet [(0, line_agent (Some 1) 0 None [0, 1] MOVING), (1, Robot_init 1 0)]
          [(0, 1)])
   \<and> assign_task
       (line_fleet [(0, line_agent (Some 1) 0 None [0, 1] MOVING), (1, Robot_init 1 0)]
          [(0, 1)]) 0 0
     = Some (Inr (True,
         line_fleet [(0, line_agent (Some 0) 0 None [0] MOVING), (1, Robot_init 1 0)]
           [(0, 1)]))
   \<and> update_robots
       (line_fleet [(0, line_agent (Some 0) 0 None [0] MOVING), (1, Robot_init 1 0)] [(0, 1)])
       1
     = Some (Inr
         (line_fleet [(0, line_agent (Some 0) 0 (Some 0) [] TASK_COMPLETE), (1, Robot_init 1 0)]
            [(0, 1)]))
   \<and> status (line_agent (Some 0) 0 (Some 0) [] TASK_COMPLETE) = TASK_COMPLETE
   \<and> current_vertex (line_agent (Some 0) 0 (Some 0) [] TASK_COMPLETE)
       \<in> set (get_occupied_vertices (traffic_manager
           (line_fleet
              [(0, line_agent (Some 0) 0 (Some 0) [] TASK_COMPLETE), (1, Robot_init 1 0)]
              [(0, 1)])))"
  using line_spawn line_assign_near line_spawn_second line_assign_here line_tick_here
  by (simp add: line_fleet_def line_agent_def get_occupied_vertices_def)

text \<open>
  Claim C4, amended: whenever the movement step of a moving agent whose path is its last
  vertex reaches that vertex, the agent's status becomes TASK\_COMPLETE, its path is
  empty and the agent no longer holds its final vertex; when the vertex reached differs
  from the vertex the agent started the step at, the final vertex is not in the occupied
  vertices afterwards.
\<close>

theorem completion_releases:
  assumes "ledger_distinct tm" and "status r = MOVING" and "path r = [next_vertex]"
    and "process_movement g tm r delta_time = Inr (r', tm')"
    and "current_vertex r' = next_vertex"
  shows "status r' = TASK_COMPLETE \<and> path r' = []
       \<and> \<not> holds_vertex tm' (robot_id r') (current_vertex r')
       \<and> (next_vertex \<noteq> current_vertex r \<longrightarrow>
            current_vertex r' \<notin> set (get_occupied_vertices tm'))"
proof -
  obtain ok tm1 where cm: "can_move_to tm r next_vertex = (ok, tm1)"
    by (cases "can_move_to tm r next_vertex")
  from assms(1) cm have d1: "ledger_distinct tm1"
    by (rule ledger_distinct_can_move_to)
  have ok: ok
  proof (rule ccontr)
    assume "\<not> ok"
    with cm assms(3,4) have "r' = r\<lparr>status := WAITING\<rparr>"
      by (simp add: process_movement_def)
    moreover from cm \<open>\<not> ok\<close> have "next_vertex \<noteq> current_vertex r"
      by (simp add: can_move_to_denied)
    ultimately show False using assms(5) by simp
  qed
  from cm ok assms(3,4) obtain r1 b where up: "update_position g r delta_time = Inr (r1, b)"
    and res: "(if current_vertex r1 = next_vertex then handle_vertex_reached tm1 r1 next_vertex
               else Inr (r1, tm1)) = Inr (r', tm')"
    by (auto simp: process_movement_def split: sum.splits)
  note u = update_position_result [OF up]
  have reached: "current_vertex r1 = next_vertex"
  proof (rule ccontr)
    assume "current_vertex r1 \<noteq> next_vertex"
    with res assms(5) show False by simp
  qed
  define tmh where "tmh = (case previous_vertex r1 of
                   None \<Rightarrow> tm1
                 | Some prev \<Rightarrow>
                     release_vertex
                       (release_lane tm1 (robot_id r1) prev (current_vertex r1))
                       (robot_id r1) prev)"
  from res reached u assms(3)
  have r': "r' = r1\<lparr>path := [], status := TASK_COMPLETE\<rparr>"
    and tm': "tm' = release_vertex tmh (robot_id r1) (current_vertex r1)"
    by (simp_all add: handle_vertex_reached_def tmh_def)
  have dh: "ledger_distinct tmh"
    unfolding tmh_def using d1
    by (auto split: option.splits
          intro: ledger_distinct_release_vertex ledger_distinct_release_lane)
  have held: "\<not> holds_vertex tm' (robot_id r') (current_vertex r')"
    using release_vertex_not_held [OF dh] by (simp add: r' tm')
  have free: "current_vertex r' \<notin> set (get_occupied_vertices tm')"
    if ne: "next_vertex \<noteq> current_vertex r"
  proof -
    from cm ok ne have g: "map_of (vertex_occupancy tm1) next_vertex = Some (robot_id r)"
      by (simp add: can_move_to_granted)
    from u reached ne have prev: "previous_vertex r1 = Some (current_vertex r)"
      by auto
    have "map_of (vertex_occupancy tmh) next_vertex = Some (robot_id r)"
      using g ne by (simp add: tmh_def prev vertex_map_release_vertex vertex_map_release_lane)
    with u reached have "map_of (vertex_occupancy tm') next_vertex = None"
      by (simp add: tm' vertex_map_release_vertex)
    then have "next_vertex \<notin> fst ` set (vertex_occupancy tm')"
      by (simp add: key_in_alist_iff)
    with reached show ?thesis
      by (simp add: get_occupied_vertices_def r')
  qed
  from r' held free show ?thesis by simp
qed

theorem completion_releases_witness:
  "process_movement line_graph \<lparr>lane_occupancy = [], vertex_occupancy = [(1, 0)]\<rparr>
     (line_agent (Some 2) 1 (Some 0) [2] MOVING) 1
   = Inr (line_agent (Some 2) 2 (Some 1) [] TASK_COMPLETE,
          \<lparr>lane_occupancy = [], vertex_occupancy = []\<rparr>)
   \<and> \<not> holds_vertex \<lparr>lane_occupancy = [], vertex_occupancy = []\<rparr> 0 2
   \<and> 2 \<notin> set (get_occupied_vertices \<lparr>lane_occupancy = [], vertex_occupancy = []\<rparr>)"
proof -
  let ?tm = "\<lparr>lane_occupancy = [], vertex_occupancy = [(1, 0)]\<rparr>"
  let ?tm' = "\<lparr>lane_occupancy = [], vertex_occupancy = []\<rparr>"
  let ?r = "line_agent (Some 2) 1 (Some 0) [2] MOVING"
  let ?r' = "line_agent (Some 2) 2 (Some 1) [] TASK_COMPLETE"
  have d: "ledger_distinct ?tm"
    by (simp add: ledger_distinct_def)
  have s: "status ?r = MOVING" and p: "path ?r = [2]" and c: "current_vertex ?r' = 2"
    by (simp_all add: line_agent_def)
  have m: "process_movement line_graph ?tm ?r 1 = Inr (?r', ?tm')"
    by (simp add: scenario_defs)
  from completion_releases [OF d s p m c] m show ?thesis
    by (simp add: line_agent_def)
qed

section \<open>Spawning\<close>

lemma keys_update: "fst ` set (AList.update k v al) = insert k (fst ` set al)"
  by (simp add: dom_update)

lemma keys_update_existing:
  "map_of al k = Some v \<Longrightarrow> fst ` set (AList.update k v' al) = fst ` set al"
  using keys_update [of k v' al] by (auto dest: map_of_SomeD intro: rev_image_eqI)

lemma keys_delete: "fst ` set (AList.delete k al) \<subseteq> fst ` set al"
  by (auto simp: AList.delete_eq)

lemma ids_below_subset:
  "ids_below rs n \<Longrightarrow> fst ` set rs' \<subseteq> fst ` set rs \<Longrightarrow> ids_below rs' n"
  unfolding ids_below_def by blast

lemma ids_below_update: "ids_below rs n \<Longrightarrow> ids_below (AList.update n r rs) (n + 1)"
  unfolding ids_below_def keys_update by fastforce

lemma ids_below_update_existing:
  "map_of rs k = Some v \<Longrightarrow> ids_below rs n \<Longrightarrow> ids_below (AList.update k v' rs) n"
  by (simp add: ids_below_def keys_update_existing)

lemma ids_below_delete: "ids_below rs n \<Longrightarrow> ids_below (AList.delete k rs) n"
  using keys_delete [of k rs] by (rule ids_below_subset [rotated])

lemma fleet_inv_init: "fleet_inv (FleetManager_init g)"
  by (simp add: fleet_inv_def FleetManager_init_def ledger_distinct_init ids_below_def)

lemma fleet_inv_spawn:
  assumes "fleet_inv fm"
  shows "fleet_inv (snd (spawn_robot fm vertex_id))"
proof -
  let ?rv = "request_vertex (traffic_manager fm) (next_robot_id fm) vertex_id"
  from assms have d: "ledger_distinct (snd ?rv)"
    and f: "ids_below (robots fm) (next_robot_id fm)"
    by (simp_all add: fleet_inv_def ledger_distinct_request_vertex)
  show ?thesis
  proof (cases "fst (spawn_robot fm vertex_id)")
    case None
    then have "snd (spawn_robot fm vertex_id) = fm \<or>
        snd (spawn_robot fm vertex_id) = fm\<lparr>traffic_manager := snd ?rv\<rparr>"
      by (auto simp: spawn_robot_def Let_def split: if_splits prod.splits)
    moreover from f d have "fleet_inv (fm\<lparr>traffic_manager := snd ?rv\<rparr>)"
      by (simp add: fleet_inv_def)
    ultimately show ?thesis
      using assms by auto
  next
    case (Some r)
    then have "snd (spawn_robot fm vertex_id)
          = fm\<lparr>traffic_manager := snd ?rv,
                robots := AList.update (next_robot_id fm) r (robots fm),
                next_robot_id := next_robot_id fm + 1\<rparr>"
      by (auto simp: spawn_robot_def Let_def split: if_splits prod.splits)
    with d ids_below_update [OF f] show ?thesis
      by (simp add: fleet_inv_def)
  qed
qed

lemma assign_task_cases:
  assumes "assign_task fm rid destination = Some (Inr (ok, fm'))"
  shows "fm' = fm
       \<or> (\<exists>r p. map_of (robots fm) rid = Some r
            \<and> fm' = fm\<lparr>robots := AList.update rid (robot_assign_task r destination p)
                                     (robots fm),
                        traffic_manager :=
                          (if length p > 1
                           then release_vertex (traffic_manager fm) (robot_id r)
                                  (current_vertex r)
                           else traffic_manager fm)\<rparr>)"
  using assms
  by (auto simp: assign_task_def Let_def split: option.splits sum.splits if_splits)

lemma fleet_inv_assign:
  assumes "fleet_inv fm" "assign_task fm rid destination = Some (Inr (ok, fm'))"
  shows "fleet_inv fm'"
  using assign_task_cases [OF assms(2)]
proof (elim disjE exE conjE)
  assume "fm' = fm"
  with assms(1) show ?thesis by simp
next
  fix r p
  assume r: "map_of (robots fm) rid = Some r"
    and fm': "fm' = fm\<lparr>robots := AList.update rid (robot_assign_task r destination p)
                                     (robots fm),
                        traffic_manager :=
                          (if length p > 1
                           then release_vertex (traffic_manager fm) (robot_id r)
                                  (current_vertex r)
                           else traffic_manager fm)\<rparr>"
  from assms(1) have d: "ledger_distinct (traffic_manager fm)"
    and dr: "ledger_distinct (release_vertex (traffic_manager fm) (robot_id r) (current_vertex r))"
    and f: "ids_below (robots fm) (next_robot_id fm)"
    by (simp_all add: fleet_inv_def ledger_distinct_release_vertex)
  from r f have "ids_below (AList.update rid (robot_assign_task r destination p) (robots fm))
      (next_robot_id fm)"
    by (rule ids_below_update_existing)
  with d dr show ?thesis
    by (simp add: fm' fleet_inv_def)
qed

lemma ledger_distinct_handle:
  assumes "ledger_distinct tm" "handle_vertex_reached tm r n = Inr (r', tm')"
  shows "ledger_distinct tm'"
proof -
  define tmh where "tmh = (case previous_vertex r of
                   None \<Rightarrow> tm
                 | Some prev \<Rightarrow>
                     release_vertex
                       (release_lane tm (robot_id r) prev (current_vertex r))
                       (robot_id r) prev)"
  have dh: "ledger_distinct tmh"
    unfolding tmh_def using assms(1)
    by (auto split: option.splits
          intro: ledger_distinct_release_vertex ledger_distinct_release_lane)
  from assms(2) have "tm' = tmh \<or> tm' = release_vertex tmh (robot_id r) (current_vertex r)"
    by (auto simp: handle_vertex_reached_def tmh_def Let_def split: list.splits if_splits)
  with dh show ?thesis
    by (auto intro: ledger_distinct_release_vertex)
qed

lemma ledger_distinct_process_movement:
  assumes "ledger_distinct tm" "process_movement g tm r delta_time = Inr (r', tm')"
  shows "ledger_distinct tm'"
proof -
  from assms(2) obtain n rest where p: "path r = n # rest"
    by (cases "path r") (simp_all add: process_movement_def)
  obtain ok tm1 where cm: "can_move_to tm r n = (ok, tm1)"
    by (cases "can_move_to tm r n")
  from assms(1) cm have d1: "ledger_distinct tm1"
    by (rule ledger_distinct_can_move_to)
  from assms(2) p cm have "tm' = tm1 \<or> (\<exists>r1. handle_vertex_reached tm1 r1 n = Inr (r', tm'))"
    by (auto simp: process_movement_def split: if_splits sum.splits)
  with d1 show ?thesis
    by (auto intro: ledger_distinct_handle)
qed

lemma movement_pass_keys:
  "movement_pass g delta_time tm rs = Inr (rs', tm') \<Longrightarrow>
     map fst rs' = map fst rs \<and> (ledger_distinct tm \<longrightarrow> ledger_distinct tm')"
proof (induction rs arbitrary: tm rs')
  case Nil
  then show ?case by simp
next
  case (Cons kr rest)
  obtain k r where kr: "kr = (k, r)" by (cases kr)
  show ?case
  proof (cases "status r = MOVING \<and> path r \<noteq> []")
    case True
    with Cons.prems kr obtain r1 tm1 rest1 where
      pm: "process_movement g tm r delta_time = Inr (r1, tm1)"
      and mp: "movement_pass g delta_time tm1 rest = Inr (rest1, tm')"
      and rs': "rs' = (k, r1) # rest1"
      by (auto split: sum.splits)
    from Cons.IH [OF mp] ledger_distinct_process_movement [OF _ pm] show ?thesis
      by (auto simp: rs' kr)
  next
    case False
    with Cons.prems kr obtain rest1 where
      mp: "movement_pass g delta_time tm rest = Inr (rest1, tm')"
      and rs': "rs' = (k, r) # rest1"
      by (auto split: sum.splits)
    from Cons.IH [OF mp] show ?thesis
      by (auto simp: rs' kr)
  qed
qed

lemma recovery_pass_keys:
  "recovery_pass g tm rs = Some (Inr rs') \<Longrightarrow> map fst rs' = map fst rs"
proof (induction rs arbitrary: rs')
  case Nil
  then show ?case by simp
next
  case (Cons kr rest)
  obtain k r where kr: "kr = (k, r)" by (cases kr)
  from Cons.prems kr obtain r1 rest1 where "recovery_pass g tm rest = Some (Inr rest1)"
    and "rs' = (k, r1) # rest1"
    by (auto split: if_splits option.splits sum.splits)
  with Cons.IH [of rest1] kr show ?case by simp
qed

lemma fleet_inv_update:
  assumes "fleet_inv fm" "update_robots fm delta_time = Some (Inr fm')"
  shows "fleet_inv fm'"
proof -
  from assms(2) obtain moved tm recovered where
    mp: "movement_pass (nav_graph fm) delta_time (traffic_manager fm) (robots fm)
           = Inr (moved, tm)"
    and rp: "recovery_pass (nav_graph fm) tm moved = Some (Inr recovered)"
    and fm': "fm' = fm\<lparr>robots := recovered, traffic_manager := tm\<rparr>"
    by (auto simp: update_robots_def split: sum.splits option.splits)
  from movement_pass_keys [OF mp] recovery_pass_keys [OF rp]
  have m: "map fst recovered = map fst (robots fm)"
    and d: "ledger_distinct (traffic_manager fm) \<longrightarrow> ledger_distinct tm"
    by simp_all
  from m have "fst ` set recovered = fst ` set (robots fm)"
    by (metis set_map)
  with assms(1) have "ids_below recovered (next_robot_id fm)"
    by (auto simp: fleet_inv_def intro: ids_below_subset)
  with assms(1) d show ?thesis
    by (simp add: fleet_inv_def fm')
qed

lemma reachable_fleet_inv: "reachable_fleet fm \<Longrightarrow> fleet_inv fm"
proof (induction rule: reachable_fleet.induct)
  case (fleet_init g)
  show ?case by (rule fleet_inv_init)
next
  case (fleet_spawn fm vertex_id)
  then show ?case by (simp add: fleet_inv_spawn)
next
  case (fleet_assign fm rid destination ok fm')
  then show ?case by (blast intro: fleet_inv_assign)
next
  case (fleet_update fm delta_time fm')
  then show ?case by (blast intro: fleet_inv_update)
next
  case (fleet_charge fm rid r)
  then show ?case by (simp add: fleet_inv_def ids_below_update_existing)
next
  case (fleet_stop_charging fm rid r)
  then show ?case by (simp add: fleet_inv_def ids_below_update_existing)
next
  case (fleet_remove fm rid)
  then show ?case by (simp add: fleet_inv_def ids_below_delete)
qed

text \<open>
  Claim C7 (spawn failure atomicity). In every reachable fleet state, \<open>spawn_robot\<close>
  returns no robot and the fleet manager it was given (no agent created, id counter and
  ledger unchanged) when the vertex id is out of range or an existing agent holds the
  vertex; whenever it returns no robot the fleet manager is unchanged; and when it returns
  a robot, that robot is IDLE at the spawn vertex, its id is the old counter and so
  greater than every existing id, the counter has grown by one, the robot is stored
  under its id with no other entry changed, and it holds the spawn vertex.
\<close>

theorem spawn_atomic:
  assumes "reachable_fleet fm"
  shows "(vertex_id < 0 \<or> vertex_id \<ge> int (length (vertices (nav_graph fm)))
           \<or> (\<exists>k \<in> fst ` set (robots fm). holds_vertex (traffic_manager fm) k vertex_id)
          \<longrightarrow> spawn_robot fm vertex_id = (None, fm))
       \<and> (fst (spawn_robot fm vertex_id) = None \<longrightarrow> snd (spawn_robot fm vertex_id) = fm)
       \<and> (\<forall>r. fst (spawn_robot fm vertex_id) = Some r \<longrightarrow>
             r = Robot_init (next_robot_id fm) vertex_id
           \<and> status r = IDLE \<and> current_vertex r = vertex_id
           \<and> robot_id r = next_robot_id fm
           \<and> (\<forall>k \<in> fst ` set (robots fm). k < robot_id r)
           \<and> next_robot_id (snd (spawn_robot fm vertex_id)) = next_robot_id fm + 1
           \<and> map_of (robots (snd (spawn_robot fm vertex_id))) (robot_id r) = Some r
           \<and> (\<forall>k. k \<noteq> robot_id r \<longrightarrow>
                 map_of (robots (snd (spawn_robot fm vertex_id))) k = map_of (robots fm) k)
           \<and> holds_vertex (traffic_manager (snd (spawn_robot fm vertex_id)))
               (robot_id r) vertex_id)"
proof -
  from assms have inv: "fleet_inv fm" by (rule reachable_fleet_inv)
  then have d: "ledger_distinct (traffic_manager fm)"
    and fresh: "\<forall>k \<in> fst ` set (robots fm). k < next_robot_id fm"
    by (simp_all add: fleet_inv_def ids_below_def)
  let ?rv = "request_vertex (traffic_manager fm) (next_robot_id fm) vertex_id"
  have one: "spawn_robot fm vertex_id = (None, fm)"
    if "vertex_id < 0 \<or> vertex_id \<ge> int (length (vertices (nav_graph fm)))
           \<or> (\<exists>k \<in> fst ` set (robots fm). holds_vertex (traffic_manager fm) k vertex_id)"
  proof (cases "vertex_id < 0 \<or> vertex_id \<ge> int (length (vertices (nav_graph fm)))")
    case True
    then show ?thesis by (auto simp: spawn_robot_def)
  next
    case False
    with that obtain k where k: "k \<in> fst ` set (robots fm)"
      "holds_vertex (traffic_manager fm) k vertex_id" by blast
    from k(1) fresh have "k \<noteq> next_robot_id fm" by auto
    with d k(2) have "?rv = (False, traffic_manager fm)"
      by (rule request_vertex_denied)
    with False show ?thesis by (simp add: spawn_robot_def)
  qed
  have denied: "snd ?rv = traffic_manager fm" if "\<not> fst ?rv"
    using that by (auto simp: request_vertex_def split: if_splits)
  have two: "snd (spawn_robot fm vertex_id) = fm" if "fst (spawn_robot fm vertex_id) = None"
    using that denied
    by (auto simp: spawn_robot_def Let_def split: if_splits prod.splits)
  have three: "r = Robot_init (next_robot_id fm) vertex_id
           \<and> status r = IDLE \<and> current_vertex r = vertex_id
           \<and> robot_id r = next_robot_id fm
           \<and> (\<forall>k \<in> fst ` set (robots fm). k < robot_id r)
           \<and> next_robot_id (snd (spawn_robot fm vertex_id)) = next_robot_id fm + 1
           \<and> map_of (robots (snd (spawn_robot fm vertex_id))) (robot_id r) = Some r
           \<and> (\<forall>k. k \<noteq> robot_id r \<longrightarrow>
                 map_of (robots (snd (spawn_robot fm vertex_id))) k = map_of (robots fm) k)
           \<and> holds_vertex (traffic_manager (snd (spawn_robot fm vertex_id)))
               (robot_id r) vertex_id"
    if "fst (spawn_robot fm vertex_id) = Some r" for r
  proof -
    from that have "fst ?rv"
      by (auto simp: spawn_robot_def Let_def split: if_splits prod.splits)
    then obtain tm1 where rv: "?rv = (True, tm1)"
      by (cases ?rv) auto
    from that rv have r: "r = Robot_init (next_robot_id fm) vertex_id"
      and s: "snd (spawn_robot fm vertex_id)
          = fm\<lparr>traffic_manager := tm1,
                robots := AList.update (next_robot_id fm) r (robots fm),
                next_robot_id := next_robot_id fm + 1\<rparr>"
      by (auto simp: spawn_robot_def Let_def split: if_splits)
    from rv have "holds_vertex tm1 (next_robot_id fm) vertex_id"
      by (rule request_vertex_True_holds)
    with fresh show ?thesis
      by (simp add: s update_conv') (simp add: r Robot_init_def)
  qed
  from one two three show ?thesis by blast
qed

theorem spawn_atomic_witness:
  "reachable_fleet (line_fleet [(0, Robot_init 0 0)] [(0, 0)])
   \<and> holds_vertex (traffic_manager (line_fleet [(0, Robot_init 0 0)] [(0, 0)])) 0 0
   \<and> spawn_robot (line_fleet [(0, Robot_init 0 0)] [(0, 0)]) 0
       = (None, line_fleet [(0, Robot_init 0 0)] [(0, 0)])
   \<and> spawn_robot (line_fleet [(0, Robot_init 0 0)] [(0, 0)]) 7
       = (None, line_fleet [(0, Robot_init 0 0)] [(0, 0)])
   \<and> fst (spawn_robot (line_fleet [(0, Robot_init 0 0)] [(0, 0)]) 1) = Some (Robot_init 1 1)
   \<and> next_robot_id (snd (spawn_robot (line_fleet [(0, Robot_init 0 0)] [(0, 0)]) 1)) = 2
   \<and> holds_vertex (traffic_manager (snd (spawn_robot (line_fleet [(0, Robot_init 0 0)] [(0, 0)]) 1)))
       1 1"
proof -
  let ?fm = "line_fleet [(0, Robot_init 0 0)] [(0, 0)]"
  have "reachable_fleet (snd (spawn_robot (FleetManager_init line_graph) 0))"
    by (intro reachable_fleet.intros)
  then have r: "reachable_fleet ?fm"
    by (simp add: line_spawn)
  have h: "holds_vertex (traffic_manager ?fm) 0 0" and k: "0 \<in> fst ` set (robots ?fm)"
    by (simp_all add: line_fleet_def holds_vertex_def)
  have range: "7 \<ge> int (length (vertices (nav_graph ?fm)))"
    by (simp add: line_fleet_def line_graph_def)
  have ok: "fst (spawn_robot ?fm 1) = Some (Robot_init 1 1)"
    by (simp add: scenario_defs)
  from spawn_atomic [OF r, of 0] h k have a: "spawn_robot ?fm 0 = (None, ?fm)"
    by blast
  from spawn_atomic [OF r, of 7] range have b: "spawn_robot ?fm 7 = (None, ?fm)"
    by blast
  from spawn_atomic [OF r, of 1] ok
  have c: "next_robot_id (snd (spawn_robot ?fm 1)) = next_robot_id ?fm + 1"
    and d: "holds_vertex (traffic_manager (snd (spawn_robot ?fm 1)))
       (robot_id (Robot_init 1 1)) 1"
    by blast+
  from c have c': "next_robot_id (snd (spawn_robot ?fm 1)) = 2"
    by (simp add: line_fleet_def)
  from d have d': "holds_vertex (traffic_manager (snd (spawn_robot ?fm 1))) 1 1"
    by (simp add: Robot_init_def)
  from r h a b ok c' d' show ?thesis by blast
qed

section \<open>Recovery within the tick\<close>

lemma check_waiting_robot_total: "\<exists>res. check_waiting_robot g tm r = Some res"
proof -
  from find_shortest_path_total [of g "current_vertex r" "destination_vertex r"
      "get_occupied_vertices tm"]
  obtain res where "find_shortest_path g (current_vertex r) (destination_vertex r)
      (get_occupied_vertices tm) = Some res" by blast
  then show ?thesis
    by (auto simp: check_waiting_robot_def Let_def split: sum.splits option.splits)
qed

lemma recovery_pass_total: "\<exists>res. recovery_pass g tm rs = Some res"
proof (induction rs)
  case Nil
  show ?case by simp
next
  case (Cons kr rest)
  obtain k r where kr: "kr = (k, r)" by (cases kr)
  from Cons obtain res where res: "recovery_pass g tm rest = Some res" by blast
  from check_waiting_robot_total [of g tm r]
  obtain cw where cw: "check_waiting_robot g tm r = Some cw" by blast
  show ?case
    by (simp add: kr res cw split: sum.splits)
qed

lemma update_robots_total: "\<exists>res. update_robots fm delta_time = Some res"
proof (cases "movement_pass (nav_graph fm) delta_time (traffic_manager fm) (robots fm)")
  case (Inl e)
  then show ?thesis by (simp add: update_robots_def)
next
  case (Inr mt)
  obtain moved tm where mt: "mt = (moved, tm)" by (cases mt)
  from recovery_pass_total [of "nav_graph fm" tm moved]
  obtain res where "recovery_pass (nav_graph fm) tm moved = Some res" by blast
  with Inr mt show ?thesis
    by (simp add: update_robots_def split: sum.splits)
qed











end
